theory Spec2Isabelle
  imports Main
begin

section \<open>Spans and the blame map (src/trackChangesPlugin.ts)\<close>

text \<open>
  \<^verbatim>\<open>class Span { from: number; to: number; commit?: number }\<close>.
  Positions are JavaScript numbers that hold integers; they are modelled as \<open>int\<close>.
  The optional \<open>commit\<close> is an index into the commit list: \<open>None\<close> stands for
  \<open>undefined\<close>. The fields \<open>from\<close> and \<open>to\<close> carry the prefix \<open>s\<close> because
  \<open>from\<close> is a keyword of the proof language.
\<close>

record Span =
  sfrom :: int
  sto :: int
  scommit :: "nat option"

definition mkSpan :: "int \<Rightarrow> int \<Rightarrow> nat option \<Rightarrow> Span" where
  "mkSpan f t c = \<lparr>sfrom = f, sto = t, scommit = c\<rparr>"

text \<open>
  \<open>insertIntoBlameMap\<close> works on the array in place with a cursor \<open>pos\<close>. The model
  splits the array at the cursor: a pair \<open>(done, rest)\<close> stands for the array
  \<open>done @ rest\<close> with \<open>pos = length done\<close>.

  First loop (lines 140-154): \<open>scanLeft\<close> returns the part of the array before the
  final \<open>pos\<close> and the part from \<open>pos\<close> on.
  \<^item> same commit and \<open>next.to >= from\<close>: break;
  \<^item> other commit and \<open>next.to > from\<close>: when \<open>next.from < from\<close> the left piece
    \<open>[next.from, from)\<close> is spliced in before \<open>next\<close> (if \<open>next.to > to\<close>) or written
    over \<open>next\<close> (otherwise), and \<open>pos\<close> moves past it; break;
  \<^item> otherwise \<open>pos++\<close>.
\<close>

fun scanLeft :: "Span list \<Rightarrow> int \<Rightarrow> int \<Rightarrow> nat \<Rightarrow> Span list \<times> Span list" where
  "scanLeft [] from to commit = ([], [])"
| "scanLeft (next # rest) from to commit =
     (if scommit next = Some commit then
        (if sto next \<ge> from then ([], next # rest)
         else (case scanLeft rest from to commit of (d, r) \<Rightarrow> (next # d, r)))
      else if sto next > from then
        (if sfrom next < from then
           (let left = mkSpan (sfrom next) from (scommit next) in
            if sto next > to then ([left], next # rest) else ([left], rest))
         else ([], next # rest))
      else (case scanLeft rest from to commit of (d, r) \<Rightarrow> (next # d, r)))"

text \<open>
  Second loop (lines 156-171): \<open>scanRight\<close> runs on the array from \<open>pos\<close> on and
  returns the widened \<open>from\<close> and \<open>to\<close> and what is left of the array from \<open>pos\<close> on.
  The loop ends when \<open>map[pos]\<close> is \<open>undefined\<close>, that is at the end of the array.
\<close>

fun scanRight :: "Span list \<Rightarrow> int \<Rightarrow> int \<Rightarrow> nat \<Rightarrow> int \<times> int \<times> Span list" where
  "scanRight [] from to commit = (from, to, [])"
| "scanRight (next # rest) from to commit =
     (if scommit next = Some commit then
        (if sfrom next > to then (from, to, next # rest)
         else scanRight rest (min from (sfrom next)) (max to (sto next)) commit)
      else
        (if sfrom next \<ge> to then (from, to, next # rest)
         else if sto next > to then (from, to, mkSpan to (sto next) (scommit next) # rest)
         else scanRight rest from to commit))"

text \<open>
  \<open>insertIntoBlameMap(map, from, to, commit)\<close>: returns the array as the call leaves it.
  Line 137 returns at once when \<open>from >= to\<close>; line 173 splices the new span in at
  \<open>pos\<close>.
\<close>

definition insertIntoBlameMap :: "Span list \<Rightarrow> int \<Rightarrow> int \<Rightarrow> nat \<Rightarrow> Span list" where
  "insertIntoBlameMap m from to commit =
     (if from \<ge> to then m
      else (case scanLeft m from to commit of
              (d, r) \<Rightarrow> (case scanRight r from to commit of
                          (from', to', r') \<Rightarrow> d @ mkSpan from' to' (Some commit) # r')))"

section \<open>Position maps (the prosemirror-transform dependency)\<close>

text \<open>
  The source imports \<open>StepMap\<close> and \<open>Mapping\<close> from prosemirror-transform and calls
  \<open>StepMap.forEach\<close>, \<open>Mapping.map\<close>, \<open>Mapping.slice\<close> and \<open>Mapping.appendMap\<close>. The
  definitions of this section follow that library.

  A \<open>StepMap\<close> holds \<open>ranges\<close>, a flat array of triples \<open>start, oldSize, newSize\<close>;
  the model keeps the triples as a list. The library's \<open>inverted\<close> flag is left out:
  the source never calls \<open>invert\<close> on a map, every map it stores comes from
  \<open>transform.mapping.maps\<close> or \<open>step.getMap()\<close>.
\<close>

type_synonym StepMap = "(int \<times> int \<times> int) list"

datatype DelFlag = DEL_BEFORE | DEL_AFTER | DEL_ACROSS | DEL_SIDE

text \<open>
  \<open>MapResult\<close>: the mapped position, the deletion flags (a bit set in the library) and
  the recover value (in the library a number packing the range index and the offset
  into the range; here the pair).
\<close>

record MapResult =
  pos :: int
  delInfo :: "DelFlag set"
  recover :: "(nat \<times> int) option"

text \<open>
  \<open>StepMap._map(pos, assoc, simple)\<close>: the loop over the ranges, with the running
  \<open>diff\<close> and the index of the range. \<open>mapFrom\<close> is the loop with \<open>simple = true\<close>
  (\<open>StepMap.map\<close>), \<open>mapResultFrom\<close> the loop with \<open>simple = false\<close>
  (\<open>StepMap.mapResult\<close>).
\<close>

fun mapFrom :: "StepMap \<Rightarrow> int \<Rightarrow> int \<Rightarrow> int \<Rightarrow> int" where
  "mapFrom [] diff p assoc = p + diff"
| "mapFrom ((start, oldSize, newSize) # rs) diff p assoc =
     (if start > p then p + diff
      else if p \<le> start + oldSize then
        (let side = (if oldSize = 0 then assoc
                     else if p = start then - 1
                     else if p = start + oldSize then 1 else assoc)
         in start + diff + (if side < 0 then 0 else newSize))
      else mapFrom rs (diff + newSize - oldSize) p assoc)"

definition StepMap_map :: "StepMap \<Rightarrow> int \<Rightarrow> int \<Rightarrow> int" where
  "StepMap_map m p assoc = mapFrom m 0 p assoc"

fun mapResultFrom :: "StepMap \<Rightarrow> nat \<Rightarrow> int \<Rightarrow> int \<Rightarrow> int \<Rightarrow> MapResult" where
  "mapResultFrom [] i diff p assoc = \<lparr>pos = p + diff, delInfo = {}, recover = None\<rparr>"
| "mapResultFrom ((start, oldSize, newSize) # rs) i diff p assoc =
     (if start > p then \<lparr>pos = p + diff, delInfo = {}, recover = None\<rparr>
      else if p \<le> start + oldSize then
        (let side = (if oldSize = 0 then assoc
                     else if p = start then - 1
                     else if p = start + oldSize then 1 else assoc);
             result = start + diff + (if side < 0 then 0 else newSize);
             rec = (if p = (if assoc < 0 then start else start + oldSize) then None
                    else Some (i, p - start));
             del = (if p = start then {DEL_AFTER}
                    else if p = start + oldSize then {DEL_BEFORE} else {DEL_ACROSS});
             del' = (if (if assoc < 0 then p \<noteq> start else p \<noteq> start + oldSize)
                     then insert DEL_SIDE del else del)
         in \<lparr>pos = result, delInfo = del', recover = rec\<rparr>)
      else mapResultFrom rs (Suc i) (diff + newSize - oldSize) p assoc)"

definition StepMap_mapResult :: "StepMap \<Rightarrow> int \<Rightarrow> int \<Rightarrow> MapResult" where
  "StepMap_mapResult m p assoc = mapResultFrom m 0 0 p assoc"

text \<open>
  \<open>StepMap.recover(value)\<close> of a map that is not inverted: the start of range
  \<open>index\<close>, shifted by the size changes of the ranges before it, plus the offset.
  An index past the last range reads \<open>undefined\<close> in JavaScript and gives \<open>NaN\<close>;
  the model returns \<open>None\<close> there.
\<close>

definition StepMap_recover :: "StepMap \<Rightarrow> nat \<times> int \<Rightarrow> int option" where
  "StepMap_recover m v =
     (case v of (index, offset) \<Rightarrow>
        if index < length m then
          Some (fst (m ! index)
                + sum_list (map (\<lambda>(start, oldSize, newSize). newSize - oldSize) (take index m))
                + offset)
        else None)"

text \<open>
  \<open>StepMap.forEach(f)\<close> calls \<open>f(oldStart, oldEnd, newStart, newEnd)\<close> for every range
  in order; \<open>forEach\<close> lists the argument tuples of the calls.
\<close>

fun forEachFrom :: "StepMap \<Rightarrow> int \<Rightarrow> (int \<times> int \<times> int \<times> int) list" where
  "forEachFrom [] diff = []"
| "forEachFrom ((start, oldSize, newSize) # rs) diff =
     (start, start + oldSize, start + diff, start + diff + newSize)
       # forEachFrom rs (diff + newSize - oldSize)"

definition forEach :: "StepMap \<Rightarrow> (int \<times> int \<times> int \<times> int) list" where
  "forEach m = forEachFrom m 0"

text \<open>
  \<open>Mapping\<close>: the array of step maps, the optional \<open>mirror\<close> array (a flat list of
  index pairs) and the window \<open>from..to\<close> of the maps it applies.
\<close>

record Mapping =
  mmaps :: "StepMap list"
  mirror :: "nat list option"
  mfrom :: nat
  mto :: nat

text \<open>\<open>new Mapping(maps)\<close>: no mirror, the window is the whole array.\<close>

definition newMapping :: "StepMap list \<Rightarrow> Mapping" where
  "newMapping ms = \<lparr>mmaps = ms, mirror = None, mfrom = 0, mto = length ms\<rparr>"

text \<open>\<open>mapping.slice(from)\<close>: the same maps and mirror, the window from \<open>from\<close> to the end of the array.\<close>

definition Mapping_slice :: "Mapping \<Rightarrow> nat \<Rightarrow> Mapping" where
  "Mapping_slice mp from = \<lparr>mmaps = mmaps mp, mirror = mirror mp, mfrom = from, mto = length (mmaps mp)\<rparr>"

text \<open>
  \<open>mapping.appendMap(map, mirrors)\<close> with \<open>mirrors\<close> given: the map is pushed at the end
  of the array, \<open>to\<close> becomes the new length, and the pair (new index, \<open>mirrors\<close>) is
  pushed on the mirror array.
\<close>

definition Mapping_appendMap :: "Mapping \<Rightarrow> StepMap \<Rightarrow> nat \<Rightarrow> Mapping" where
  "Mapping_appendMap mp m mirrors =
     \<lparr>mmaps = mmaps mp @ [m],
      mirror = Some ((case mirror mp of None \<Rightarrow> [] | Some ps \<Rightarrow> ps) @ [length (mmaps mp), mirrors]),
      mfrom = mfrom mp,
      mto = Suc (length (mmaps mp))\<rparr>"

text \<open>
  \<open>mapping.getMirror(n)\<close>: the first entry of the mirror array equal to \<open>n\<close> selects
  its partner, the next entry at an even index and the one before at an odd index.
\<close>

fun getMirrorFrom :: "nat list \<Rightarrow> nat \<Rightarrow> nat option" where
  "getMirrorFrom (a # b # ps) n =
     (if a = n then Some b else if b = n then Some a else getMirrorFrom ps n)"
| "getMirrorFrom ps n = None"

definition getMirror :: "Mapping \<Rightarrow> nat \<Rightarrow> nat option" where
  "getMirror mp n = (case mirror mp of None \<Rightarrow> None | Some ps \<Rightarrow> getMirrorFrom ps n)"

text \<open>
  \<open>Mapping._map\<close>: the loop over the window. A result that carries a recover value
  jumps to the mirror of the current map when there is one further on in the window.
  The loop index \<open>i\<close> only grows; the window is assumed to lie inside the array
  (\<open>to \<le> maps.length\<close>, as the constructor, \<open>slice\<close> and \<open>appendMap\<close> keep it), and a
  read past the array ends the loop in the model.
\<close>

function mappingMapFrom :: "Mapping \<Rightarrow> nat \<Rightarrow> int \<Rightarrow> int \<Rightarrow> DelFlag set \<Rightarrow> MapResult" where
  "mappingMapFrom mp i p assoc del =
     (if i < mto mp \<and> i < length (mmaps mp) then
        (let result = StepMap_mapResult (mmaps mp ! i) p assoc;
             jump = (case recover result of
                       None \<Rightarrow> None
                     | Some v \<Rightarrow>
                         (case getMirror mp i of
                            None \<Rightarrow> None
                          | Some corr \<Rightarrow>
                              if corr > i \<and> corr < mto mp \<and> corr < length (mmaps mp)
                              then (case StepMap_recover (mmaps mp ! corr) v of
                                      None \<Rightarrow> None
                                    | Some q \<Rightarrow> Some (corr, q))
                              else None))
         in case jump of
              Some (corr, q) \<Rightarrow> mappingMapFrom mp (Suc corr) q assoc del
            | None \<Rightarrow> mappingMapFrom mp (Suc i) (pos result) assoc (del \<union> delInfo result))
      else \<lparr>pos = p, delInfo = del, recover = None\<rparr>)"
  by pat_completeness auto
termination
  by (relation "measure (\<lambda>(mp, i, p, assoc, del). length (mmaps mp) - i)")
     (auto split: option.splits if_splits)

declare mappingMapFrom.simps [simp del]

text \<open>
  \<open>Mapping.map(pos, assoc)\<close>: with a mirror array the general loop, without one the
  plain loop \<open>for (i = from; i < to; i++) pos = maps[i].map(pos, assoc)\<close>.
\<close>

definition Mapping_map :: "Mapping \<Rightarrow> int \<Rightarrow> int \<Rightarrow> int" where
  "Mapping_map mp p assoc =
     (if mirror mp \<noteq> None then pos (mappingMapFrom mp (mfrom mp) p assoc {})
      else foldl (\<lambda>q m. StepMap_map m q assoc) p
             (drop (mfrom mp) (take (mto mp) (mmaps mp))))"

definition Mapping_mapResult :: "Mapping \<Rightarrow> int \<Rightarrow> int \<Rightarrow> MapResult" where
  "Mapping_mapResult mp p assoc = mappingMapFrom mp (mfrom mp) p assoc {}"

section \<open>Commits and the tracked state (src/trackChangesPlugin.ts)\<close>

text \<open>
  \<open>Commit\<close> objects are compared by reference (\<open>indexOf\<close>, \<open>===\<close>). The model gives
  every object its address, \<open>caddr\<close>; two commits are the same object when their
  addresses are equal. The type of steps is a parameter: \<open>Step\<close> is a class of
  prosemirror-transform. \<open>time\<close> is the \<open>Date\<close> as its number of milliseconds.
\<close>

record 'step Commit =
  caddr :: nat
  message :: string
  time :: int
  steps :: "'step list"
  cmaps :: "StepMap list"
  hidden :: bool

text \<open>\<open>new Commit(message, time, steps, maps)\<close> allocated at address \<open>a\<close>; \<open>hidden\<close> defaults to \<open>false\<close>.\<close>

definition newCommit :: "nat \<Rightarrow> string \<Rightarrow> int \<Rightarrow> 'step list \<Rightarrow> StepMap list \<Rightarrow> 'step Commit" where
  "newCommit a msg t ss ms = \<lparr>caddr = a, message = msg, time = t, steps = ss, cmaps = ms, hidden = False\<rparr>"

record 'step TrackState =
  blameMap :: "Span list"
  commits :: "'step Commit list"
  uncommittedSteps :: "'step list"
  uncommittedMaps :: "StepMap list"

text \<open>
  \<open>Transform\<close> (prosemirror-transform): the current document, the steps, the document
  before each step and the mapping of the steps. The type of documents is a parameter.
\<close>

record ('step, 'doc) Transform =
  tdoc :: 'doc
  tsteps :: "'step list"
  tdocs :: "'doc list"
  tmapping :: Mapping

text \<open>
  \<open>updateBlameMap\<close>, first loop (lines 113-118): every span is mapped, \<open>from\<close> with
  \<open>assoc = 1\<close> and \<open>to\<close> with \<open>assoc = -1\<close>, and pushed when \<open>from < to\<close>.
\<close>

fun survivors :: "Mapping \<Rightarrow> Span list \<Rightarrow> Span list" where
  "survivors mapping [] = []"
| "survivors mapping (span # rest) =
     (let from = Mapping_map mapping (sfrom span) 1;
          to = Mapping_map mapping (sto span) (- 1)
      in (if from < to then [mkSpan from to (scommit span)] else [])
         @ survivors mapping rest)"

text \<open>
  Second loop (lines 120-126): for every map \<open>i\<close> of the mapping and every range of
  it, the new range is mapped through \<open>mapping.slice(i + 1)\<close> and inserted.
\<close>

definition insertRangesOf :: "Mapping \<Rightarrow> nat \<Rightarrow> nat \<Rightarrow> Span list \<Rightarrow> Span list" where
  "insertRangesOf mapping cid i result =
     (let after = Mapping_slice mapping (i + 1)
      in foldl (\<lambda>res (s, e, start, end).
                  insertIntoBlameMap res (Mapping_map after start 1) (Mapping_map after end (- 1)) cid)
           result (forEach (mmaps mapping ! i)))"

definition updateBlameMap :: "Span list \<Rightarrow> Mapping \<Rightarrow> nat \<Rightarrow> Span list" where
  "updateBlameMap m mapping cid =
     foldl (\<lambda>res i. insertRangesOf mapping cid i res)
       (survivors mapping m) [0 ..< length (mmaps mapping)]"

text \<open>
  \<open>TrackState.applyTransform\<close> (lines 75-94). \<open>invert\<close> stands for \<open>Step.invert\<close>,
  step \<open>i\<close> is inverted against \<open>transform.docs[i]\<close>.
\<close>

definition applyTransform ::
  "('step \<Rightarrow> 'doc \<Rightarrow> 'step) \<Rightarrow> 'step TrackState \<Rightarrow> ('step, 'doc) Transform \<Rightarrow> 'step TrackState" where
  "applyTransform invert st transform =
     (let inverted = map (\<lambda>(step, doc). invert step doc) (zip (tsteps transform) (tdocs transform));
          newBlame = updateBlameMap (blameMap st) (tmapping transform) (length (commits st))
      in \<lparr>blameMap = newBlame,
          commits = commits st,
          uncommittedSteps = uncommittedSteps st @ inverted,
          uncommittedMaps = uncommittedMaps st @ mmaps (tmapping transform)\<rparr>)"

text \<open>
  \<open>TrackState.applyCommit\<close> (lines 98-107); \<open>a\<close> is the address of the \<open>Commit\<close>
  object the call allocates.
\<close>

definition applyCommit :: "nat \<Rightarrow> 'step TrackState \<Rightarrow> string \<Rightarrow> int \<Rightarrow> 'step TrackState" where
  "applyCommit a st msg t =
     (if uncommittedSteps st = [] then st
      else \<lparr>blameMap = blameMap st,
            commits = commits st @ [newCommit a msg t (uncommittedSteps st) (uncommittedMaps st)],
            uncommittedSteps = [],
            uncommittedMaps = []\<rparr>)"

section \<open>Transactions and the two plugins\<close>

text \<open>
  A JavaScript value that may be \<open>undefined\<close>, \<open>null\<close> or an object.
\<close>

datatype 'a js = Undefined | Null | Val 'a

text \<open>
  The metadata the highlight plugin reads: \<open>{add: commit}\<close> or \<open>{clear: commit}\<close>; a
  field that is not set reads \<open>undefined\<close>.
\<close>

record 'step HighlightMeta =
  add :: "'step Commit js"
  clear :: "'step Commit js"

text \<open>
  \<open>Transaction\<close>: a transform with its time and the metadata of the two plugins.
  \<open>trackMeta\<close> is \<open>tr.getMeta(TrackChangesPlugin)\<close>, a commit message when set;
  \<open>highlightMeta\<close> is \<open>tr.getMeta(highlightPlugin)\<close>.
\<close>

record ('step, 'doc) Transaction = "('step, 'doc) Transform" +
  trTime :: int
  trackMeta :: "string option"
  highlightMeta :: "'step HighlightMeta option"

text \<open>\<open>tr.docChanged\<close>: the transaction has steps.\<close>

definition docChanged :: "('step, 'doc, 'x) Transaction_scheme \<Rightarrow> bool" where
  "docChanged tr = (tsteps tr \<noteq> [])"

text \<open>\<open>state.tr\<close>: a transaction on the current document with no steps and no metadata.\<close>

definition newTransaction :: "'doc \<Rightarrow> int \<Rightarrow> ('step, 'doc) Transaction" where
  "newTransaction d t =
     \<lparr>tdoc = d, tsteps = [], tdocs = [], tmapping = newMapping [],
      trTime = t, trackMeta = None, highlightMeta = None\<rparr>"

text \<open>\<open>TrackChangesPlugin\<close>, \<open>init\<close> (line 179): one span over the whole document, no commit.\<close>

definition trackInit :: "int \<Rightarrow> 'step TrackState" where
  "trackInit n =
     \<lparr>blameMap = [mkSpan 0 n None], commits = [], uncommittedSteps = [], uncommittedMaps = []\<rparr>"

text \<open>
  \<open>TrackChangesPlugin\<close>, \<open>apply\<close> (lines 181-189). The commit message is a string; it
  is truthy when it is not empty. \<open>a\<close> is the address of the commit that
  \<open>applyCommit\<close> may allocate.
\<close>

definition trackApply ::
  "('step \<Rightarrow> 'doc \<Rightarrow> 'step) \<Rightarrow> nat \<Rightarrow> ('step, 'doc) Transaction \<Rightarrow> 'step TrackState \<Rightarrow> 'step TrackState" where
  "trackApply invert a tr tracked =
     (let tracked1 = (if docChanged tr
                      then applyTransform invert tracked (Transform.truncate tr) else tracked)
      in case trackMeta tr of
           None \<Rightarrow> tracked1
         | Some commitMessage \<Rightarrow>
             if commitMessage \<noteq> [] then applyCommit a tracked1 commitMessage (trTime tr)
             else tracked1)"

text \<open>
  A decoration \<open>Decoration.inline(from, to, {class: ...})\<close> and the decoration set, kept
  as the list of its decorations.
\<close>

record Decoration =
  dfrom :: int
  dto :: int
  dclass :: string

definition inline :: "int \<Rightarrow> int \<Rightarrow> string \<Rightarrow> Decoration" where
  "inline f t c = \<lparr>dfrom = f, dto = t, dclass = c\<rparr>"

record 'step HighlightState =
  deco :: "Decoration list"
  hcommit :: "'step Commit js"

text \<open>\<open>highlightPlugin\<close>, \<open>init\<close> (line 196).\<close>

definition highlightInit :: "'step HighlightState" where
  "highlightInit = \<lparr>deco = [], hcommit = Null\<rparr>"

text \<open>
  \<open>===\<close> on values that are \<open>undefined\<close>, \<open>null\<close> or a \<open>Commit\<close> object: objects are
  equal when they are the same object.
\<close>

fun strictEq :: "'step Commit js \<Rightarrow> 'step Commit js \<Rightarrow> bool" where
  "strictEq Undefined Undefined = True"
| "strictEq Null Null = True"
| "strictEq (Val c) (Val d) = (caddr c = caddr d)"
| "strictEq x y = False"

text \<open>\<open>commits[i]\<close>: \<open>undefined\<close> past the end of the array.\<close>

definition commitAt :: "'step Commit list \<Rightarrow> nat \<Rightarrow> 'step Commit js" where
  "commitAt cs i = (if i < length cs then Val (cs ! i) else Undefined)"

text \<open>
  The filter of line 203, \<open>span.commit && commits[span.commit] === highlight.add\<close>:
  \<open>span.commit\<close> is falsy when it is \<open>undefined\<close> and when it is the number \<open>0\<close>.
\<close>

definition blamed :: "'step Commit list \<Rightarrow> 'step Commit js \<Rightarrow> Span \<Rightarrow> bool" where
  "blamed cs target span =
     (case scommit span of
        None \<Rightarrow> False
      | Some k \<Rightarrow> k \<noteq> 0 \<and> strictEq (commitAt cs k) target)"

text \<open>
  \<open>highlightPlugin\<close>, \<open>apply(tr, prev, oldState, state)\<close> (lines 198-224). \<open>tracked\<close> is
  \<open>TrackChangesPlugin.getState(oldState)\<close>; \<open>decoMap\<close> stands for
  \<open>DecorationSet.map(tr.mapping, tr.doc)\<close> of prosemirror-view.
\<close>

definition highlightApply ::
  "(Decoration list \<Rightarrow> Mapping \<Rightarrow> 'doc \<Rightarrow> Decoration list) \<Rightarrow> ('step, 'doc) Transaction \<Rightarrow>
   'step HighlightState \<Rightarrow> 'step TrackState \<Rightarrow> 'step HighlightState" where
  "highlightApply decoMap tr prev tracked =
     (let highlight = highlightMeta tr in
      if highlight \<noteq> None \<and> add (the highlight) \<noteq> Null \<and> add (the highlight) \<noteq> Undefined
         \<and> \<not> strictEq (hcommit prev) (add (the highlight))
      then
        (let decos = map (\<lambda>span. inline (sfrom span) (sto span) ''commit-blame-marker'')
                       (filter (blamed (commits tracked) (add (the highlight))) (blameMap tracked))
         in \<lparr>deco = decos, hcommit = add (the highlight)\<rparr>)
      else if highlight \<noteq> None \<and> clear (the highlight) \<noteq> Null
              \<and> strictEq (hcommit prev) (clear (the highlight))
      then \<lparr>deco = [], hcommit = Null\<rparr>
      else if docChanged tr \<and> hcommit prev \<noteq> Null \<and> hcommit prev \<noteq> Undefined
      then \<lparr>deco = decoMap (deco prev) (tmapping tr) (tdoc tr), hcommit = hcommit prev\<rparr>
      else prev)"

section \<open>Reverting a commit (src/unnamed/part_000)\<close>

text \<open>
  \<open>commits.indexOf(commit)\<close>: the first index that holds the same object; \<open>None\<close>
  stands for \<open>-1\<close>.
\<close>

fun indexOfFrom :: "'step Commit list \<Rightarrow> 'step Commit \<Rightarrow> nat \<Rightarrow> nat option" where
  "indexOfFrom [] c i = None"
| "indexOfFrom (x # xs) c i = (if caddr x = caddr c then Some i else indexOfFrom xs c (Suc i))"

definition indexOf :: "'step Commit list \<Rightarrow> 'step Commit \<Rightarrow> nat option" where
  "indexOf cs c = indexOfFrom cs c 0"

text \<open>
  The operations of \<open>Step\<close> and \<open>Transform\<close> that the command calls are parameters:
  \<open>stepMap\<close> is \<open>step.map(mapping)\<close> (\<open>None\<close> for \<open>null\<close>), \<open>stepApply\<close> is
  \<open>step.apply(doc)\<close> (\<open>None\<close> when the result has no \<open>doc\<close>), \<open>stepGetMap\<close> is
  \<open>step.getMap()\<close>.

  \<open>tr.maybeStep(step)\<close> (prosemirror-transform): the step is applied to the current
  document; when that works, the document, the step and its map are added to the
  transform. The result tells whether it worked (\<open>result.doc\<close>).
\<close>

definition maybeStep ::
  "('step \<Rightarrow> 'doc \<Rightarrow> 'doc option) \<Rightarrow> ('step \<Rightarrow> StepMap) \<Rightarrow>
   ('step, 'doc, 'x) Transform_scheme \<Rightarrow> 'step \<Rightarrow> ('step, 'doc, 'x) Transform_scheme \<times> bool" where
  "maybeStep stepApply stepGetMap tr step =
     (case stepApply step (tdoc tr) of
        None \<Rightarrow> (tr, False)
      | Some d \<Rightarrow>
          (tr\<lparr>tdoc := d,
              tsteps := tsteps tr @ [step],
              tdocs := tdocs tr @ [tdoc tr],
              tmapping := \<lparr>mmaps = mmaps (tmapping tr) @ [stepGetMap step],
                           mirror = mirror (tmapping tr),
                           mfrom = mfrom (tmapping tr),
                           mto = Suc (length (mmaps (tmapping tr)))\<rparr>\<rparr>, True))"

text \<open>
  The body of the loop of lines 71-80 for one index \<open>i\<close>: the state of the loop is
  the pair of \<open>remap\<close> and \<open>tr\<close>.
\<close>

definition revertStep ::
  "('step \<Rightarrow> Mapping \<Rightarrow> 'step option) \<Rightarrow> ('step \<Rightarrow> 'doc \<Rightarrow> 'doc option) \<Rightarrow> ('step \<Rightarrow> StepMap) \<Rightarrow>
   'step list \<Rightarrow> nat \<Rightarrow> Mapping \<times> ('step, 'doc) Transaction \<Rightarrow> Mapping \<times> ('step, 'doc) Transaction" where
  "revertStep stepMap stepApply stepGetMap csteps i s =
     (case s of (remap, tr) \<Rightarrow>
        (case stepMap (csteps ! i) (Mapping_slice remap (i + 1)) of
           None \<Rightarrow> (remap, tr)
         | Some remapped \<Rightarrow>
             (case maybeStep stepApply stepGetMap tr remapped of
                (tr', ok) \<Rightarrow>
                  (if ok then Mapping_appendMap remap (stepGetMap remapped) i else remap, tr'))))"

text \<open>
  The loop \<open>for (let i = commit.steps.length - 1; i >= 0; i--)\<close>: \<open>revertLoop\<close> with
  counter \<open>n\<close> runs the indices \<open>n - 1\<close> down to \<open>0\<close>.
\<close>

fun revertLoop ::
  "('step \<Rightarrow> Mapping \<Rightarrow> 'step option) \<Rightarrow> ('step \<Rightarrow> 'doc \<Rightarrow> 'doc option) \<Rightarrow> ('step \<Rightarrow> StepMap) \<Rightarrow>
   'step list \<Rightarrow> nat \<Rightarrow> Mapping \<times> ('step, 'doc) Transaction \<Rightarrow> Mapping \<times> ('step, 'doc) Transaction" where
  "revertLoop stepMap stepApply stepGetMap csteps 0 s = s"
| "revertLoop stepMap stepApply stepGetMap csteps (Suc i) s =
     revertLoop stepMap stepApply stepGetMap csteps i
       (revertStep stepMap stepApply stepGetMap csteps i s)"

text \<open>
  \<open>revertCommit(commit)({state})\<close> (lines 46-86). \<open>tracked\<close> is the state of the
  tracking plugin, \<open>tr\<close> the transaction \<open>state.tr\<close> of the command. The result is
  the value the command returns and the transaction as the command leaves it. The
  \<open>alert\<close> of line 56 shows a message and is not modelled.
\<close>

definition revertCommit ::
  "('step \<Rightarrow> Mapping \<Rightarrow> 'step option) \<Rightarrow> ('step \<Rightarrow> 'doc \<Rightarrow> 'doc option) \<Rightarrow> ('step \<Rightarrow> StepMap) \<Rightarrow>
   'step Commit \<Rightarrow> 'step TrackState \<Rightarrow> ('step, 'doc) Transaction \<Rightarrow> bool \<times> ('step, 'doc) Transaction" where
  "revertCommit stepMap stepApply stepGetMap commit trackState tr0 =
     (case indexOf (commits trackState) commit of
        None \<Rightarrow> (False, tr0)
      | Some index \<Rightarrow>
          if uncommittedSteps trackState \<noteq> [] then (False, tr0)
          else
            (let remap = newMapping (concat (map cmaps (drop index (commits trackState))));
                 tr = snd (revertLoop stepMap stepApply stepGetMap (steps commit)
                             (length (steps commit)) (remap, tr0))
             in (True,
                 if docChanged tr
                 then tr\<lparr>trackMeta := Some (''Revert '' @ [CHR 0x27] @ message commit @ [CHR 0x27])\<rparr>
                 else tr)))"

section \<open>Replace steps on a flat document\<close>

text \<open>
  Modelled from the spec: the Operation/Transform Engine, an external collaborator
  (prosemirror-transform's \<open>Step\<close>) whose code is not part of the repository. The
  specification treats the document as a sequence of bytes and an operation as the
  replacement of a range by new content (``insert X at 1'', ``delete range [5,11)'');
  \<open>apply(document, operation)\<close> gives the new document or rejects,
  \<open>invert(operation, preDocument)\<close> gives the inverse operation. The step below is
  prosemirror-transform's \<open>ReplaceStep\<close> on such a document: \<open>apply\<close> rejects a range
  outside the document, \<open>invert\<close> puts the replaced content back, \<open>getMap\<close> is the one
  range \<open>from, to - from, slice.size\<close>, and \<open>map\<close> maps \<open>from\<close> with \<open>assoc = 1\<close> and
  \<open>to\<close> with \<open>assoc = -1\<close> through \<open>mapping.mapResult\<close> and gives \<open>null\<close> when
  both were deleted across.
\<close>

datatype ReplaceStep = ReplaceStep (rfrom: int) (rto: int) (rslice: string)

definition replaceApply :: "ReplaceStep \<Rightarrow> string \<Rightarrow> string option" where
  "replaceApply s d =
     (if 0 \<le> rfrom s \<and> rfrom s \<le> rto s \<and> rto s \<le> int (length d)
      then Some (take (nat (rfrom s)) d @ rslice s @ drop (nat (rto s)) d)
      else None)"

definition replaceInvert :: "ReplaceStep \<Rightarrow> string \<Rightarrow> ReplaceStep" where
  "replaceInvert s d =
     ReplaceStep (rfrom s) (rfrom s + int (length (rslice s)))
       (take (nat (rto s - rfrom s)) (drop (nat (rfrom s)) d))"

definition replaceGetMap :: "ReplaceStep \<Rightarrow> StepMap" where
  "replaceGetMap s = [(rfrom s, rto s - rfrom s, int (length (rslice s)))]"

definition replaceMap :: "ReplaceStep \<Rightarrow> Mapping \<Rightarrow> ReplaceStep option" where
  "replaceMap s mapping =
     (let from = Mapping_mapResult mapping (rfrom s) 1;
          to = Mapping_mapResult mapping (rto s) (- 1)
      in if DEL_ACROSS \<in> delInfo from \<and> DEL_ACROSS \<in> delInfo to then None
         else Some (ReplaceStep (pos from) (max (pos from) (pos to)) (rslice s)))"

text \<open>
  \<open>new Transform(doc)\<close>, and a transform that takes the steps \<open>ss\<close> one after the
  other with \<open>Transform.step\<close>, which throws when a step does not apply (\<open>None\<close>).
\<close>

definition newTransform :: "'doc \<Rightarrow> ('step, 'doc) Transform" where
  "newTransform d = \<lparr>tdoc = d, tsteps = [], tdocs = [], tmapping = newMapping []\<rparr>"

fun applySteps ::
  "(ReplaceStep, string) Transform \<Rightarrow> ReplaceStep list \<Rightarrow> (ReplaceStep, string) Transform option" where
  "applySteps tr [] = Some tr"
| "applySteps tr (s # ss) =
     (case maybeStep replaceApply replaceGetMap tr s of
        (tr', ok) \<Rightarrow> if ok then applySteps tr' ss else None)"

text \<open>
  An editing session from the document \<open>d\<close>: one transform per list of steps, each
  on the document the one before left. The result is the transforms and the last
  document.
\<close>

fun session ::
  "string \<Rightarrow> ReplaceStep list list \<Rightarrow> ((ReplaceStep, string) Transform list \<times> string) option" where
  "session d [] = Some ([], d)"
| "session d (ss # sss) =
     (case applySteps (newTransform d) ss of
        None \<Rightarrow> None
      | Some tr \<Rightarrow>
          (case session (tdoc tr) sss of
             None \<Rightarrow> None
           | Some (trs, d') \<Rightarrow> Some (tr # trs, d')))"

section \<open>Reachable states\<close>

text \<open>
  The ranges of a step map that belongs to a document of size \<open>hi\<close>: they are in
  order, do not overlap and lie inside the document, and no size is negative. This
  is what the maps of prosemirror-transform's steps look like (one range
  \<open>from, to - from, slice.size\<close> for a replace step, two ranges around the gap for a
  replace-around step, no range for a mark step).
\<close>

fun validRanges :: "int \<Rightarrow> int \<Rightarrow> StepMap \<Rightarrow> bool" where
  "validRanges lo hi [] = (lo \<le> hi)"
| "validRanges lo hi ((start, oldSize, newSize) # rs) =
     (lo \<le> start \<and> 0 \<le> oldSize \<and> 0 \<le> newSize \<and> validRanges (start + oldSize) hi rs)"

definition sizeChange :: "StepMap \<Rightarrow> int" where
  "sizeChange m = sum_list (map (\<lambda>(start, oldSize, newSize). newSize - oldSize) m)"

fun validMaps :: "int \<Rightarrow> StepMap list \<Rightarrow> bool" where
  "validMaps n [] = (0 \<le> n)"
| "validMaps n (m # ms) = (validRanges 0 n m \<and> validMaps (n + sizeChange m) ms)"

text \<open>
  A transform on a document of size \<open>n\<close>, as \<open>Transform.step\<close> builds it: one map
  and one earlier document per step, a mapping without mirrors over all the maps,
  every map valid for the document it applies to.
\<close>

definition validTransform :: "int \<Rightarrow> ('step, 'doc, 'x) Transform_scheme \<Rightarrow> bool" where
  "validTransform n tr =
     (mirror (tmapping tr) = None \<and> mfrom (tmapping tr) = 0
      \<and> mto (tmapping tr) = length (mmaps (tmapping tr))
      \<and> length (tsteps tr) = length (mmaps (tmapping tr))
      \<and> length (tdocs tr) = length (tsteps tr)
      \<and> validMaps n (mmaps (tmapping tr)))"

text \<open>The size of the document after the transform.\<close>

definition sizeAfter :: "int \<Rightarrow> ('step, 'doc, 'x) Transform_scheme \<Rightarrow> int" where
  "sizeAfter n tr = n + sum_list (map sizeChange (mmaps (tmapping tr)))"

text \<open>
  \<open>reachable invert n st\<close>: the tracked state \<open>st\<close> is reached, on a document that
  has size \<open>n\<close> by now, from the initial state by \<open>applyTransform\<close> and \<open>applyCommit\<close>.
\<close>

inductive reachable :: "('step \<Rightarrow> 'doc \<Rightarrow> 'step) \<Rightarrow> int \<Rightarrow> 'step TrackState \<Rightarrow> bool"
  for invert :: "'step \<Rightarrow> 'doc \<Rightarrow> 'step" where
  reach_init: "0 \<le> n \<Longrightarrow> reachable invert n (trackInit n)"
| reach_transform:
    "reachable invert n st \<Longrightarrow> validTransform n tr \<Longrightarrow>
     reachable invert (sizeAfter n tr) (applyTransform invert st tr)"
| reach_commit: "reachable invert n st \<Longrightarrow> reachable invert n (applyCommit a st msg t)"

section \<open>Auxiliary predicates\<close>

text \<open>Every span of \<open>res\<close> carries the id \<open>c\<close> or an attribution of a span of \<open>m\<close>.\<close>

definition idsIn :: "nat \<Rightarrow> Span list \<Rightarrow> Span list \<Rightarrow> bool" where
  "idsIn c m res = (\<forall>x \<in> set res. scommit x = Some c \<or> scommit x \<in> scommit ` set m)"

text \<open>
  Every attribution id of the blame map is the index of a commit, or it is the
  index the next commit will get and the buffer of uncommitted steps is not empty.
\<close>

definition idsOk :: "'step TrackState \<Rightarrow> bool" where
  "idsOk st = (\<forall>s \<in> set (blameMap st). \<forall>k. scommit s = Some k \<longrightarrow>
                 k < length (commits st) \<or> (k = length (commits st) \<and> uncommittedSteps st \<noteq> []))"

text \<open>
  The survivor phase as the specification words it, for comparison with \<open>survivors\<close>:
  \<open>from\<close> mapped with left bias (\<open>assoc = -1\<close>), \<open>to\<close> with right bias
  (\<open>assoc = 1\<close>), the span dropped when the remapped \<open>from \<ge> to\<close>.
\<close>

definition survivorsClaimed :: "Mapping \<Rightarrow> Span list \<Rightarrow> Span list" where
  "survivorsClaimed mapping m =
     map (\<lambda>span. mkSpan (Mapping_map mapping (sfrom span) (- 1)) (Mapping_map mapping (sto span) 1) (scommit span))
       (filter (\<lambda>span. Mapping_map mapping (sfrom span) (- 1) < Mapping_map mapping (sto span) 1) m)"

section \<open>Coverage of the blame map: auxiliary definitions\<close>

text \<open>
  The plain loop of \<open>Mapping.map\<close> over a list of step maps.
\<close>

definition mapAll :: "StepMap list \<Rightarrow> int \<Rightarrow> int \<Rightarrow> int" where
  "mapAll ms p assoc = foldl (\<lambda>q m. StepMap_map m q assoc) p ms"

text \<open>
  The positions covered by a family of half-open intervals \<open>[x, y)\<close>.
\<close>

definition cov :: "(int \<times> int) set \<Rightarrow> int set" where
  "cov F = (\<Union>(x, y) \<in> F. {x ..< y})"

text \<open>
  What one step map makes of a family of intervals: every interval has its start
  mapped with \<open>assoc = 1\<close> and its end with \<open>assoc = -1\<close>, and the new ranges the map
  reports through \<open>forEach\<close> are added.
\<close>

definition stepFamily :: "StepMap \<Rightarrow> (int \<times> int) set \<Rightarrow> (int \<times> int) set" where
  "stepFamily m F = (\<lambda>(x, y). (StepMap_map m x 1, StepMap_map m y (- 1))) ` F
                    \<union> (\<lambda>(s, e, ns, ne). (ns, ne)) ` set (forEach m)"

text \<open>
  A family of intervals mapped through a list of step maps.
\<close>

definition mapFamily :: "StepMap list \<Rightarrow> (int \<times> int) set \<Rightarrow> (int \<times> int) set" where
  "mapFamily ms F = (\<lambda>(x, y). (mapAll ms x 1, mapAll ms y (- 1))) ` F"

text \<open>
  The ranges that the maps of a list insert, each mapped through the maps after its own.
\<close>

fun insFamily :: "StepMap list \<Rightarrow> (int \<times> int) set" where
  "insFamily [] = {}"
| "insFamily (m # ms) = mapFamily ms ((\<lambda>(s, e, ns, ne). (ns, ne)) ` set (forEach m)) \<union> insFamily ms"

text \<open>
  The positions that the second loop of \<open>updateBlameMap\<close> inserts for the map of index \<open>i\<close>.
\<close>

definition insAt :: "StepMap list \<Rightarrow> nat \<Rightarrow> int set" where
  "insAt ms i = cov (mapFamily (drop (Suc i) ms) ((\<lambda>(s, e, ns, ne). (ns, ne)) ` set (forEach (ms ! i))))"

text \<open>
  A list of spans in order: every span starts at or after \<open>lo\<close> and at or after the
  end of the span before it, and no span ends before it starts.
\<close>

fun chain :: "int \<Rightarrow> Span list \<Rightarrow> bool" where
  "chain lo [] = True"
| "chain lo (s # m) = (lo \<le> sfrom s \<and> sfrom s \<le> sto s \<and> chain (sto s) m)"

text \<open>
  The same with no empty span.
\<close>

fun chainS :: "int \<Rightarrow> Span list \<Rightarrow> bool" where
  "chainS lo [] = True"
| "chainS lo (s # m) = (lo \<le> sfrom s \<and> sfrom s < sto s \<and> chainS (sto s) m)"

text \<open>
  The positions a blame map covers: the union of its spans \<open>[from, to)\<close>.
\<close>

definition cover :: "Span list \<Rightarrow> int set" where
  "cover m = (\<Union>s \<in> set m. {sfrom s ..< sto s})"

text \<open>
  A blame map whose spans are in order, without overlap, none of them empty.
\<close>

definition sortedSpans :: "Span list \<Rightarrow> bool" where
  "sortedSpans m = (\<exists>lo. chainS lo m)"

text \<open>
  The invariant of the blame map of a document of size \<open>n\<close>.
\<close>

definition blameInv :: "int \<Rightarrow> Span list \<Rightarrow> bool" where
  "blameInv n m = ((\<exists>lo. chain lo m) \<and> cover m = {0 ..< n})"

text \<open>
  Maximal coalescing as the specification words it: no two adjacent spans carry the
  same attribution.
\<close>

definition coalesced :: "Span list \<Rightarrow> bool" where
  "coalesced m = (\<forall>i. Suc i < length m \<longrightarrow> scommit (m ! i) \<noteq> scommit (m ! Suc i))"

section \<open>Reverting the last commit: auxiliary definitions\<close>

text \<open>
  The two values of \<open>assoc\<close> the source passes.
\<close>

definition assocOk :: "int \<Rightarrow> bool" where
  "assocOk a = (a = 1 \<or> a = - 1)"

text \<open>
  The window \<open>a..b\<close> of a mapping is nested: every map of its first half has one
  range, its mirror is the map at the mirrored place of the second half, and that map
  has the same range with the old and the new size exchanged.
\<close>

definition nestedAt :: "Mapping \<Rightarrow> nat \<Rightarrow> nat \<Rightarrow> bool" where
  "nestedAt mp a b =
     (b \<le> mto mp \<and> b \<le> length (mmaps mp)
      \<and> (\<forall>x. a \<le> x \<and> x < b \<longrightarrow> getMirror mp x = Some (a + b - 1 - x))
      \<and> (\<forall>x. a \<le> x \<and> 2 * x + 1 < a + b \<longrightarrow>
            (\<exists>f o' n. 0 \<le> o' \<and> 0 \<le> n \<and> mmaps mp ! x = [(f, o', n)]
                       \<and> mmaps mp ! (a + b - 1 - x) = [(f, n, o')])))"

text \<open>
  The documents a list of replace steps runs through: the document before each step,
  and the last document; \<open>None\<close> when a step does not apply.
\<close>

fun docsOf :: "string \<Rightarrow> ReplaceStep list \<Rightarrow> (string list \<times> string) option" where
  "docsOf d [] = Some ([], d)"
| "docsOf d (s # ss) =
     (case replaceApply s d of
        None \<Rightarrow> None
      | Some d1 \<Rightarrow> (case docsOf d1 ss of None \<Rightarrow> None | Some (ds, d') \<Rightarrow> Some (d # ds, d')))"

text \<open>
  Document number \<open>j\<close> of such a run, the last document after the documents before
  the steps.
\<close>

definition docAt :: "string list \<Rightarrow> string \<Rightarrow> nat \<Rightarrow> string" where
  "docAt ds dn j = (ds @ [dn]) ! j"

text \<open>
  The inverted steps as \<open>applyTransform\<close> computes them from steps and documents.
\<close>

definition invertAll :: "ReplaceStep list \<Rightarrow> string list \<Rightarrow> ReplaceStep list" where
  "invertAll ss ds = map (\<lambda>(step, doc). replaceInvert step doc) (zip ss ds)"

text \<open>
  The mirror array of a mapping, empty when there is none.
\<close>

definition mirrorList :: "Mapping \<Rightarrow> nat list" where
  "mirrorList mp = (case mirror mp of None \<Rightarrow> [] | Some ps \<Rightarrow> ps)"

text \<open>
  The invariant of the loop of \<open>revertCommit\<close> when the last commit is reverted, at
  counter \<open>c\<close> (the steps \<open>c\<close> and later are undone): the pipeline holds the maps
  of the steps \<open>ss\<close> and behind them the maps of the inverted steps undone so far, each
  the mirror of the map of its step, and the transaction is at the document before
  step \<open>c\<close>.
\<close>

definition revInv ::
  "ReplaceStep list \<Rightarrow> ReplaceStep list \<Rightarrow> (nat \<Rightarrow> string) \<Rightarrow> nat \<Rightarrow>
   Mapping \<times> (ReplaceStep, string) Transaction \<Rightarrow> bool" where
  "revInv ss invs D c s =
     (case s of (remap, tr) \<Rightarrow>
        c \<le> length ss
        \<and> length (mmaps remap) = 2 * length ss - c
        \<and> mto remap = 2 * length ss - c
        \<and> (\<forall>j < length ss. mmaps remap ! j = replaceGetMap (ss ! j))
        \<and> (\<forall>j. c \<le> j \<and> j < length ss \<longrightarrow> mmaps remap ! (2 * length ss - 1 - j) = replaceGetMap (invs ! j))
        \<and> (\<forall>x. getMirror remap x = (if c \<le> x \<and> x < 2 * length ss - c then Some (2 * length ss - 1 - x) else None))
        \<and> even (length (mirrorList remap))
        \<and> tdoc tr = D c)"

text \<open>
  Position \<open>q\<close> lies in a span of \<open>m\<close> that carries the attribution id \<open>c\<close>.
\<close>

definition attributed :: "nat \<Rightarrow> Span list \<Rightarrow> int \<Rightarrow> bool" where
  "attributed c m q = (\<exists>s \<in> set m. scommit s = Some c \<and> sfrom s \<le> q \<and> q < sto s)"

text \<open>
  Position \<open>q\<close> is inserted by the map of index \<open>i\<close> of the mapping: it lies in a
  new range that \<open>forEach\<close> reports for this map, mapped through
  \<open>mapping.slice(i + 1)\<close> with \<open>assoc = 1\<close> for the start and \<open>assoc = -1\<close> for the end.
  These are the ranges that the second loop of \<open>updateBlameMap\<close> (lines 120-126)
  passes to \<open>insertIntoBlameMap\<close>.
\<close>

definition insertedAt :: "Mapping \<Rightarrow> nat \<Rightarrow> int \<Rightarrow> bool" where
  "insertedAt mp i q =
     (\<exists>(s, e, ns, ne) \<in> set (forEach (mmaps mp ! i)).
        Mapping_map (Mapping_slice mp (i + 1)) ns 1 \<le> q \<and> q < Mapping_map (Mapping_slice mp (i + 1)) ne (- 1))"

section \<open>Degenerate insert ranges\<close>

text \<open>
  C10. For every blame map, every commit id and every pair of positions with
  \<open>from \<ge> to\<close>, \<open>insertIntoBlameMap\<close> returns the map as it was.
\<close>

theorem insertIntoBlameMap_degenerate:
  "from \<ge> to \<Longrightarrow> insertIntoBlameMap m from to commit = m"
  by (simp add: insertIntoBlameMap_def)

theorem insertIntoBlameMap_degenerate_witness:
  "(7::int) \<ge> 3 \<and>
   insertIntoBlameMap [mkSpan 0 5 None, mkSpan 5 11 (Some 0)] 7 3 1
     = [mkSpan 0 5 None, mkSpan 5 11 (Some 0)]"
  using insertIntoBlameMap_degenerate [of 3 7 "[mkSpan 0 5 None, mkSpan 5 11 (Some 0)]" 1]
  by simp

section \<open>Attribution ids and commit indices\<close>

lemma scanLeft_commits:
  "scanLeft m f t c = (d, r) \<Longrightarrow> x \<in> set d \<union> set r \<Longrightarrow> scommit x \<in> scommit ` set m"
proof (induction m arbitrary: d r)
  case Nil
  then show ?case by simp
next
  case (Cons a m)
  obtain d0 r0 where rec: "scanLeft m f t c = (d0, r0)" by (cases "scanLeft m f t c")
  have IH: "x \<in> set d0 \<union> set r0 \<Longrightarrow> scommit x \<in> scommit ` set m"
    using Cons.IH [OF rec] by simp
  from Cons.prems rec IH show ?case
    by (auto simp: mkSpan_def Let_def split: if_splits)
qed

lemma scanRight_commits:
  "scanRight m f t c = (f', t', r) \<Longrightarrow> x \<in> set r \<Longrightarrow> scommit x \<in> scommit ` set m"
proof (induction m f t c rule: scanRight.induct)
  case (1 f t c)
  then show ?case by simp
next
  case (2 nxt rest f t c)
  then show ?case
    by (auto simp: mkSpan_def split: if_splits)
qed

lemma insertIntoBlameMap_commits:
  "x \<in> set (insertIntoBlameMap m f t c) \<Longrightarrow> scommit x = Some c \<or> scommit x \<in> scommit ` set m"
proof (cases "f \<ge> t")
  case True
  assume "x \<in> set (insertIntoBlameMap m f t c)"
  with True show ?thesis by (auto simp: insertIntoBlameMap_def)
next
  case False
  assume x: "x \<in> set (insertIntoBlameMap m f t c)"
  obtain d r where l: "scanLeft m f t c = (d, r)" by (cases "scanLeft m f t c")
  obtain f' t' r' where r: "scanRight r f t c = (f', t', r')" by (cases "scanRight r f t c")
  have "insertIntoBlameMap m f t c = d @ mkSpan f' t' (Some c) # r'"
    using False l r by (simp add: insertIntoBlameMap_def)
  then consider "x \<in> set d" | "x = mkSpan f' t' (Some c)" | "x \<in> set r'" using x by auto
  then show ?thesis
  proof cases
    case 1
    then show ?thesis using scanLeft_commits [OF l, of x] by simp
  next
    case 2
    then show ?thesis by (simp add: mkSpan_def)
  next
    case 3
    then obtain y where "y \<in> set r" "scommit y = scommit x"
      using scanRight_commits [OF r, of x] by force
    then show ?thesis using scanLeft_commits [OF l, of y] by simp
  qed
qed

lemma survivors_commits: "x \<in> set (survivors mp m) \<Longrightarrow> scommit x \<in> scommit ` set m"
  by (induction m) (auto simp: Let_def mkSpan_def split: if_splits)

lemma idsIn_insert: "idsIn c m res \<Longrightarrow> idsIn c m (insertIntoBlameMap res f t c)"
  unfolding idsIn_def using insertIntoBlameMap_commits by (metis (no_types, lifting) image_iff)

lemma idsIn_forEach:
  "idsIn c m res \<Longrightarrow>
   idsIn c m (foldl (\<lambda>res (s, e, start, end).
                  insertIntoBlameMap res (Mapping_map after start 1) (Mapping_map after end (- 1)) c)
           res xs)"
  by (induction xs arbitrary: res) (auto simp: idsIn_insert)

lemma idsIn_insertRangesOf: "idsIn c m res \<Longrightarrow> idsIn c m (insertRangesOf mp c i res)"
  by (simp add: insertRangesOf_def Let_def idsIn_forEach)

lemma idsIn_foldl:
  "idsIn c m res \<Longrightarrow> idsIn c m (foldl (\<lambda>res i. insertRangesOf mp c i res) res js)"
  by (induction js arbitrary: res) (auto simp: idsIn_insertRangesOf)

lemma updateBlameMap_commits:
  "x \<in> set (updateBlameMap m mp c) \<Longrightarrow> scommit x = Some c \<or> scommit x \<in> scommit ` set m"
proof -
  have "idsIn c m (survivors mp m)"
    using survivors_commits by (auto simp: idsIn_def)
  then have "idsIn c m (updateBlameMap m mp c)"
    by (simp add: updateBlameMap_def idsIn_foldl)
  then show "x \<in> set (updateBlameMap m mp c) \<Longrightarrow> scommit x = Some c \<or> scommit x \<in> scommit ` set m"
    by (simp add: idsIn_def)
qed

lemma updateBlameMap_no_maps:
  "mmaps mp = [] \<Longrightarrow> x \<in> set (updateBlameMap m mp c) \<Longrightarrow> scommit x \<in> scommit ` set m"
  using survivors_commits [of x mp m] by (simp add: updateBlameMap_def)

lemma reachable_idsOk: "reachable invert n st \<Longrightarrow> idsOk st"
proof (induction rule: reachable.induct)
  case (reach_init n)
  then show ?case by (simp add: idsOk_def trackInit_def mkSpan_def)
next
  case (reach_transform n st tr)
  let ?st' = "applyTransform invert st tr"
  have c: "commits ?st' = commits st" by (simp add: applyTransform_def Let_def)
  have b: "blameMap ?st' = updateBlameMap (blameMap st) (tmapping tr) (length (commits st))"
    by (simp add: applyTransform_def Let_def)
  have old: "\<And>s0 k. s0 \<in> set (blameMap st) \<Longrightarrow> scommit s0 = Some k \<Longrightarrow>
               k < length (commits st) \<or> (k = length (commits st) \<and> uncommittedSteps st \<noteq> [])"
    using reach_transform.IH unfolding idsOk_def by blast
  show ?case
  proof (cases "tsteps tr = []")
    case True
    then have m: "mmaps (tmapping tr) = []" using reach_transform.hyps(2) by (simp add: validTransform_def)
    have u: "uncommittedSteps ?st' = uncommittedSteps st" using True by (simp add: applyTransform_def Let_def)
    show ?thesis unfolding idsOk_def
    proof (intro ballI allI impI)
      fix s k assume s: "s \<in> set (blameMap ?st')" and k: "scommit s = Some k"
      then have "Some k \<in> scommit ` set (blameMap st)"
        using updateBlameMap_no_maps [OF m, of s "blameMap st" "length (commits st)"] b by simp
      then obtain s0 where "s0 \<in> set (blameMap st)" "scommit s0 = Some k" by force
      then show "k < length (commits ?st') \<or> (k = length (commits ?st') \<and> uncommittedSteps ?st' \<noteq> [])"
        using old c u by simp
    qed
  next
    case False
    then have "zip (tsteps tr) (tdocs tr) \<noteq> []"
      using reach_transform.hyps(2) by (cases "tsteps tr"; cases "tdocs tr") (auto simp: validTransform_def)
    then have u: "uncommittedSteps ?st' \<noteq> []" by (simp add: applyTransform_def Let_def)
    show ?thesis unfolding idsOk_def
    proof (intro ballI allI impI)
      fix s k assume s: "s \<in> set (blameMap ?st')" and k: "scommit s = Some k"
      then have "k = length (commits st) \<or> Some k \<in> scommit ` set (blameMap st)"
        using updateBlameMap_commits [of s "blameMap st" "tmapping tr" "length (commits st)"] b by simp
      then consider "k = length (commits st)" | s0 where "s0 \<in> set (blameMap st)" "scommit s0 = Some k" by force
      then show "k < length (commits ?st') \<or> (k = length (commits ?st') \<and> uncommittedSteps ?st' \<noteq> [])"
      proof cases
        case 1
        then show ?thesis using c u by simp
      next
        case 2
        then have "k < length (commits st) \<or> k = length (commits st)"
          using old by blast
        then show ?thesis using c u by auto
      qed
    qed
  qed
next
  case (reach_commit n st a msg t)
  have old: "\<And>s0 k. s0 \<in> set (blameMap st) \<Longrightarrow> scommit s0 = Some k \<Longrightarrow>
               k < length (commits st) \<or> (k = length (commits st) \<and> uncommittedSteps st \<noteq> [])"
    using reach_commit.IH unfolding idsOk_def by blast
  show ?case
  proof (cases "uncommittedSteps st = []")
    case True
    then show ?thesis using reach_commit.IH by (simp add: applyCommit_def)
  next
    case False
    show ?thesis unfolding idsOk_def
    proof (intro ballI allI impI)
      fix s k assume s: "s \<in> set (blameMap (applyCommit a st msg t))" and k: "scommit s = Some k"
      then have "s \<in> set (blameMap st)" using False by (simp add: applyCommit_def)
      then have "k \<le> length (commits st)" using old [OF _ k] by auto
      then show "k < length (commits (applyCommit a st msg t))
                 \<or> (k = length (commits (applyCommit a st msg t)) \<and> uncommittedSteps (applyCommit a st msg t) \<noteq> [])"
        using False by (simp add: applyCommit_def)
    qed
  qed
qed

section \<open>Committing\<close>

text \<open>
  C6. For every state, message and time: with an empty buffer of uncommitted steps
  \<open>applyCommit\<close> returns the state as it is; otherwise the commit list of the result is
  the old list with the one new commit (message, time, the uncommitted steps, the
  uncommitted maps) appended, both buffers of the result are empty and the blame map
  is the old one.
\<close>

theorem applyCommit_spec:
  "(uncommittedSteps st = [] \<longrightarrow> applyCommit a st msg t = st) \<and>
   (uncommittedSteps st \<noteq> [] \<longrightarrow>
      commits (applyCommit a st msg t)
        = commits st @ [\<lparr>caddr = a, message = msg, time = t, steps = uncommittedSteps st,
                          cmaps = uncommittedMaps st, hidden = False\<rparr>]
      \<and> uncommittedSteps (applyCommit a st msg t) = []
      \<and> uncommittedMaps (applyCommit a st msg t) = []
      \<and> blameMap (applyCommit a st msg t) = blameMap st)"
  by (simp add: applyCommit_def newCommit_def)

theorem applyCommit_spec_witness:
  "uncommittedSteps (trackInit 5 :: nat TrackState) = []
   \<and> applyCommit 0 (trackInit 5 :: nat TrackState) ''m'' 1 = trackInit 5
   \<and> uncommittedSteps ((trackInit 5 :: nat TrackState)\<lparr>uncommittedSteps := [7], uncommittedMaps := [[(5, 0, 6)]]\<rparr>) \<noteq> []
   \<and> commits (applyCommit 0 ((trackInit 5 :: nat TrackState)\<lparr>uncommittedSteps := [7], uncommittedMaps := [[(5, 0, 6)]]\<rparr>) ''m'' 1)
       = [\<lparr>caddr = 0, message = ''m'', time = 1, steps = [7], cmaps = [[(5, 0, 6)]], hidden = False\<rparr>]"
  using applyCommit_spec [of "trackInit 5 :: nat TrackState" 0 "''m''" 1]
        applyCommit_spec [of "(trackInit 5 :: nat TrackState)\<lparr>uncommittedSteps := [7], uncommittedMaps := [[(5, 0, 6)]]\<rparr>" 0 "''m''" 1]
  by (simp add: trackInit_def)

section \<open>The survivor phase of updateBlameMap\<close>

text \<open>
  C3 as the specification states it fails: when six characters are inserted at the
  end of the span \<open>[0, 5)\<close>, the source keeps the span as \<open>[0, 5)\<close>, while mapping
  \<open>to\<close> with right bias would give \<open>[0, 11)\<close>.
\<close>

theorem survivors_bias_counterexample:
  "survivors (newMapping [[(5, 0, 6)]]) [mkSpan 0 5 None]
     \<noteq> survivorsClaimed (newMapping [[(5, 0, 6)]]) [mkSpan 0 5 None]"
  by (simp add: survivorsClaimed_def newMapping_def Mapping_map_def StepMap_map_def mkSpan_def)

text \<open>
  C3, amended. In the survivor phase every span has \<open>from\<close> mapped with \<open>assoc = 1\<close>
  and \<open>to\<close> with \<open>assoc = -1\<close>; the span is dropped exactly when the remapped \<open>from\<close> is
  not below the remapped \<open>to\<close> and is kept with its attribution otherwise, in the old
  order. \<open>assoc = 1\<close> is the right bias and \<open>assoc = -1\<close> the left bias: a position at
  which \<open>n\<close> characters are inserted moves behind them with \<open>1\<close> and stays before them
  with \<open>-1\<close>.
\<close>

theorem survivors_spec:
  "survivors mapping m =
     map (\<lambda>span. mkSpan (Mapping_map mapping (sfrom span) 1) (Mapping_map mapping (sto span) (- 1)) (scommit span))
       (filter (\<lambda>span. Mapping_map mapping (sfrom span) 1 < Mapping_map mapping (sto span) (- 1)) m)
   \<and> Mapping_map (newMapping [[(p, 0, n)]]) p 1 = p + n
   \<and> Mapping_map (newMapping [[(p, 0, n)]]) p (- 1) = p"
proof -
  have "survivors mapping m =
     map (\<lambda>span. mkSpan (Mapping_map mapping (sfrom span) 1) (Mapping_map mapping (sto span) (- 1)) (scommit span))
       (filter (\<lambda>span. Mapping_map mapping (sfrom span) 1 < Mapping_map mapping (sto span) (- 1)) m)"
    by (induction m) (simp_all add: Let_def)
  then show ?thesis
    by (simp add: newMapping_def Mapping_map_def StepMap_map_def)
qed

section \<open>Rejected reverts\<close>

lemma indexOfFrom_None: "(indexOfFrom cs c i = None) = (caddr c \<notin> caddr ` set cs)"
  by (induction cs arbitrary: i) auto

lemma trackApply_newTransaction: "trackApply invert a (newTransaction d t) tracked = tracked"
  by (simp add: trackApply_def newTransaction_def docChanged_def)

text \<open>
  C5. \<open>revertCommit\<close> returns \<open>false\<close> exactly when no commit of the state's list is
  the target object or the buffer of uncommitted steps is not empty. In both cases the
  transaction of the command is left as it was, and applying that transaction (the
  fresh \<open>state.tr\<close>) leaves the tracked state unchanged. The model of the command is a
  total function: every path returns a value.
\<close>

theorem revertCommit_rejects:
  "(fst (revertCommit stepMap stepApply stepGetMap commit trackState tr0) = False)
     = (caddr commit \<notin> caddr ` set (commits trackState) \<or> uncommittedSteps trackState \<noteq> [])
   \<and> (fst (revertCommit stepMap stepApply stepGetMap commit trackState tr0) = False
        \<longrightarrow> snd (revertCommit stepMap stepApply stepGetMap commit trackState tr0) = tr0)
   \<and> (fst (revertCommit stepMap stepApply stepGetMap commit trackState (newTransaction d t)) = False
        \<longrightarrow> trackApply invert a
              (snd (revertCommit stepMap stepApply stepGetMap commit trackState (newTransaction d t)))
              trackState = trackState)"
proof -
  have 1: "(indexOf (commits trackState) commit = None) = (caddr commit \<notin> caddr ` set (commits trackState))"
    by (simp add: indexOf_def indexOfFrom_None)
  have 2: "\<And>tr. (fst (revertCommit stepMap stepApply stepGetMap commit trackState tr) = False)
     = (caddr commit \<notin> caddr ` set (commits trackState) \<or> uncommittedSteps trackState \<noteq> [])"
    using 1 by (auto simp: revertCommit_def Let_def split: option.splits)
  have 3: "\<And>tr. fst (revertCommit stepMap stepApply stepGetMap commit trackState tr) = False
        \<Longrightarrow> snd (revertCommit stepMap stepApply stepGetMap commit trackState tr) = tr"
    by (auto simp: revertCommit_def Let_def split: option.splits if_splits)
  show ?thesis using 2 3 by (simp add: trackApply_newTransaction)
qed

theorem revertCommit_rejects_witness:
  "fst (revertCommit (\<lambda>s m. Some s) (\<lambda>s d. Some d) (\<lambda>s. []) (newCommit 9 ''x'' 0 [1::nat] [[]])
          \<lparr>blameMap = [mkSpan 0 5 None], commits = [newCommit 3 ''c0'' 0 [1] [[]]],
            uncommittedSteps = [], uncommittedMaps = []\<rparr> (newTransaction (0::nat) 0)) = False
   \<and> snd (revertCommit (\<lambda>s m. Some s) (\<lambda>s d. Some d) (\<lambda>s. []) (newCommit 3 ''c0'' 0 [1::nat] [[]])
          \<lparr>blameMap = [mkSpan 0 5 None], commits = [newCommit 3 ''c0'' 0 [1] [[]]],
            uncommittedSteps = [2], uncommittedMaps = [[]]\<rparr> (newTransaction (0::nat) 0))
       = newTransaction 0 0
   \<and> fst (revertCommit (\<lambda>s m. Some s) (\<lambda>s d. Some d) (\<lambda>s. []) (newCommit 3 ''c0'' 0 [1::nat] [[]])
          \<lparr>blameMap = [mkSpan 0 5 None], commits = [newCommit 3 ''c0'' 0 [1] [[]]],
            uncommittedSteps = [], uncommittedMaps = []\<rparr> (newTransaction (0::nat) 0)) = True"
  using revertCommit_rejects [of "\<lambda>s m. Some s" "\<lambda>s d. Some d" "\<lambda>s. []" "newCommit 9 ''x'' 0 [1::nat] [[]]"
          "\<lparr>blameMap = [mkSpan 0 5 None], commits = [newCommit 3 ''c0'' 0 [1] [[]]],
            uncommittedSteps = [], uncommittedMaps = []\<rparr>" "newTransaction (0::nat) 0" 0 0 "\<lambda>s d. s" 0]
        revertCommit_rejects [of "\<lambda>s m. Some s" "\<lambda>s d. Some d" "\<lambda>s. []" "newCommit 3 ''c0'' 0 [1::nat] [[]]"
          "\<lparr>blameMap = [mkSpan 0 5 None], commits = [newCommit 3 ''c0'' 0 [1] [[]]],
            uncommittedSteps = [2], uncommittedMaps = [[]]\<rparr>" "newTransaction (0::nat) 0" 0 0 "\<lambda>s d. s" 0]
        revertCommit_rejects [of "\<lambda>s m. Some s" "\<lambda>s d. Some d" "\<lambda>s. []" "newCommit 3 ''c0'' 0 [1::nat] [[]]"
          "\<lparr>blameMap = [mkSpan 0 5 None], commits = [newCommit 3 ''c0'' 0 [1] [[]]],
            uncommittedSteps = [], uncommittedMaps = []\<rparr>" "newTransaction (0::nat) 0" 0 0 "\<lambda>s d. s" 0]
  by (simp add: newCommit_def)

section \<open>The highlight overlay\<close>

text \<open>
  C9. When a transaction with the metadata \<open>{add: c}\<close> has been applied to any
  overlay state, applying a second transaction with \<open>{add: c}\<close> that does not change
  the document returns the overlay state (decorations and active commit) of the first.
\<close>

theorem highlight_add_idempotent:
  "highlightMeta tr1 = Some \<lparr>add = Val c, clear = Undefined\<rparr> \<Longrightarrow>
   highlightMeta tr2 = Some \<lparr>add = Val c, clear = Undefined\<rparr> \<Longrightarrow>
   \<not> docChanged tr2 \<Longrightarrow>
   highlightApply decoMap tr2 (highlightApply decoMap tr1 prev tracked1) tracked2
     = highlightApply decoMap tr1 prev tracked1"
  by (cases "hcommit prev") (auto simp: highlightApply_def Let_def)

theorem highlight_add_idempotent_witness:
  "highlightApply (\<lambda>ds m d. ds)
     ((newTransaction (0::nat) 0)\<lparr>highlightMeta := Some \<lparr>add = Val (newCommit 4 ''c1'' 0 [2::nat] [[]]), clear = Undefined\<rparr>\<rparr>)
     (highlightApply (\<lambda>ds m d. ds)
        ((newTransaction (0::nat) 0)\<lparr>highlightMeta := Some \<lparr>add = Val (newCommit 4 ''c1'' 0 [2::nat] [[]]), clear = Undefined\<rparr>\<rparr>)
        highlightInit
        \<lparr>blameMap = [mkSpan 0 5 None, mkSpan 5 7 (Some 1)],
          commits = [newCommit 3 ''c0'' 0 [1] [[]], newCommit 4 ''c1'' 0 [2] [[]]],
          uncommittedSteps = [], uncommittedMaps = []\<rparr>)
     \<lparr>blameMap = [mkSpan 0 5 None, mkSpan 5 7 (Some 1)],
       commits = [newCommit 3 ''c0'' 0 [1] [[]], newCommit 4 ''c1'' 0 [2] [[]]],
       uncommittedSteps = [], uncommittedMaps = []\<rparr>
   = \<lparr>deco = [inline 5 7 ''commit-blame-marker''], hcommit = Val (newCommit 4 ''c1'' 0 [2::nat] [[]])\<rparr>"
proof -
  let ?tr = "(newTransaction (0::nat) 0)\<lparr>highlightMeta := Some \<lparr>add = Val (newCommit 4 ''c1'' 0 [2::nat] [[]]), clear = Undefined\<rparr>\<rparr>"
  let ?ts = "\<lparr>blameMap = [mkSpan 0 5 None, mkSpan 5 7 (Some 1)],
       commits = [newCommit 3 ''c0'' 0 [1::nat] [[]], newCommit 4 ''c1'' 0 [2] [[]]],
       uncommittedSteps = [], uncommittedMaps = []\<rparr>"
  have h: "highlightMeta ?tr = Some \<lparr>add = Val (newCommit 4 ''c1'' 0 [2::nat] [[]]), clear = Undefined\<rparr>"
    by simp
  have d: "\<not> docChanged ?tr" by (simp add: docChanged_def newTransaction_def)
  have once: "highlightApply (\<lambda>ds m d. ds) ?tr highlightInit ?ts
     = \<lparr>deco = [inline 5 7 ''commit-blame-marker''], hcommit = Val (newCommit 4 ''c1'' 0 [2::nat] [[]])\<rparr>"
    by (simp add: highlightApply_def highlightInit_def blamed_def commitAt_def mkSpan_def newCommit_def)
  show ?thesis
    using highlight_add_idempotent [OF h h d, of "\<lambda>ds m d. ds" highlightInit ?ts ?ts] once by simp
qed

text \<open>
  C8 at the first commit. The blame map of scenario 1 has the span \<open>[5, 11)\<close>
  attributed to commit \<open>0\<close>; highlighting that commit from the idle state gives no
  decoration, because the filter of line 203 tests \<open>span.commit\<close> for truthiness and
  \<open>0\<close> is falsy.
\<close>

theorem highlight_first_commit_undecorated:
  "highlightApply decoMap
     ((newTransaction d t)\<lparr>highlightMeta := Some \<lparr>add = Val (newCommit 3 ''add world'' 0 [s] [[(5, 0, 6)]]), clear = Undefined\<rparr>\<rparr>)
     highlightInit
     \<lparr>blameMap = [mkSpan 0 5 None, mkSpan 5 11 (Some 0)],
       commits = [newCommit 3 ''add world'' 0 [s] [[(5, 0, 6)]]],
       uncommittedSteps = [], uncommittedMaps = []\<rparr>
   = \<lparr>deco = [], hcommit = Val (newCommit 3 ''add world'' 0 [s] [[(5, 0, 6)]])\<rparr>"
  by (simp add: highlightApply_def highlightInit_def blamed_def mkSpan_def)

text \<open>
  For a commit at an index above \<open>0\<close> the filter does what C8 says: when the commits
  of the list are different objects, highlighting the commit of index \<open>k\<close> from the
  idle state gives one decoration for every span attributed to \<open>k\<close>, in the order of
  the blame map, and none for any other span.
\<close>

lemma blamed_later_commit:
  assumes "k < length cs" and "0 < k" and "distinct (map caddr cs)"
  shows "blamed cs (Val (cs ! k)) span = (scommit span = Some k)"
proof (cases "scommit span")
  case None
  then show ?thesis by (simp add: blamed_def)
next
  case (Some j)
  show ?thesis
  proof (cases "j < length cs")
    case True
    have "(caddr (cs ! j) = caddr (cs ! k)) = (j = k)"
      using nth_eq_iff_index_eq [OF assms(3), of j k] True assms(1) by simp
    then show ?thesis using Some True assms(2) by (auto simp: blamed_def commitAt_def)
  next
    case False
    then show ?thesis using Some assms(1) by (auto simp: blamed_def commitAt_def)
  qed
qed

lemma highlight_later_commit:
  assumes "k < length (commits tracked)" and "0 < k" and "distinct (map caddr (commits tracked))"
      and "highlightMeta tr = Some \<lparr>add = Val (commits tracked ! k), clear = Undefined\<rparr>"
  shows "highlightApply decoMap tr highlightInit tracked
           = \<lparr>deco = map (\<lambda>span. inline (sfrom span) (sto span) ''commit-blame-marker'')
                       (filter (\<lambda>span. scommit span = Some k) (blameMap tracked)),
              hcommit = Val (commits tracked ! k)\<rparr>"
proof -
  have "blamed (commits tracked) (Val (commits tracked ! k)) = (\<lambda>span. scommit span = Some k)"
    using blamed_later_commit [OF assms(1) assms(2) assms(3)] by (intro ext)
  then show ?thesis using assms(4) by (simp add: highlightApply_def highlightInit_def)
qed

section \<open>The remap pipeline of a revert\<close>

lemma revertLoop_foldl:
  "revertLoop sm sa gm cs n s = foldl (\<lambda>s j. revertStep sm sa gm cs j s) s (rev [0 ..< n])"
  by (induction n arbitrary: s) simp_all

lemma revertStep_maps_prefix:
  "\<exists>ms. mmaps (fst (revertStep sm sa gm cs j s)) = mmaps (fst s) @ ms"
  by (cases s) (auto simp: revertStep_def Mapping_appendMap_def split: option.splits prod.splits)

lemma revertSteps_maps_prefix:
  "\<exists>ms. mmaps (fst (foldl (\<lambda>s j. revertStep sm sa gm cs j s) s js)) = mmaps (fst s) @ ms"
proof (induction js arbitrary: s)
  case Nil
  then show ?case by simp
next
  case (Cons j js)
  obtain ms1 where 1: "mmaps (fst (revertStep sm sa gm cs j s)) = mmaps (fst s) @ ms1"
    using revertStep_maps_prefix by blast
  obtain ms2 where 2: "mmaps (fst (foldl (\<lambda>s j. revertStep sm sa gm cs j s) (revertStep sm sa gm cs j s) js))
      = mmaps (fst (revertStep sm sa gm cs j s)) @ ms2"
    using Cons.IH by blast
  show ?case using 1 2 by simp
qed

text \<open>
  C7 as the specification states it fails: after the step with index \<open>0\<close> has been
  undone, slot \<open>0\<close> of the pipeline still holds the map of the commit; the new
  fragment is the last entry.
\<close>

theorem revert_fragment_slot_counterexample:
  "mmaps (fst (revertStep (\<lambda>s m. Some s) (\<lambda>s d. Some d) (\<lambda>s. [(1, 1, 0)]) [0::nat] 0
                 (newMapping [[(1, 0, 1)]], newTransaction (0::nat) 0)))
     = [[(1, 0, 1)], [(1, 1, 0)]]
   \<and> mmaps (fst (revertStep (\<lambda>s m. Some s) (\<lambda>s d. Some d) (\<lambda>s. [(1, 1, 0)]) [0::nat] 0
                 (newMapping [[(1, 0, 1)]], newTransaction (0::nat) 0))) ! 0
     \<noteq> [(1, 1, 0)]"
  by (simp add: revertStep_def maybeStep_def Mapping_appendMap_def newMapping_def)

text \<open>
  C7, amended. When the remapped step of index \<open>i\<close> applies, its map is appended at
  the end of the pipeline of \<open>remap\<close> and registered as the mirror of slot \<open>i\<close>; the
  slots before it, slot \<open>i\<close> among them, keep their maps. The loop runs the bodies
  of the indices below \<open>i\<close> after it, and whatever bodies run later, for every lower
  index \<open>j\<close> the mapping \<open>remap.slice(j + 1)\<close> that the step of index \<open>j\<close> is mapped
  through has the fragment at that same place inside its window.
\<close>

theorem revertStep_appends:
  assumes "stepMap (csteps ! i) (Mapping_slice remap (i + 1)) = Some remapped"
      and "stepApply remapped (tdoc tr) = Some d"
      and "i < length (mmaps remap)"
  shows "mmaps (fst (revertStep stepMap stepApply stepGetMap csteps i (remap, tr)))
           = mmaps remap @ [stepGetMap remapped]
       \<and> mmaps (fst (revertStep stepMap stepApply stepGetMap csteps i (remap, tr))) ! i = mmaps remap ! i
       \<and> mirror (fst (revertStep stepMap stepApply stepGetMap csteps i (remap, tr)))
           = Some ((case mirror remap of None \<Rightarrow> [] | Some ps \<Rightarrow> ps) @ [length (mmaps remap), i])
       \<and> revertLoop stepMap stepApply stepGetMap csteps (Suc i) (remap, tr)
           = foldl (\<lambda>s k. revertStep stepMap stepApply stepGetMap csteps k s)
               (revertStep stepMap stepApply stepGetMap csteps i (remap, tr)) (rev [0 ..< i])
       \<and> (\<forall>js j. j < i \<longrightarrow>
            (let later = Mapping_slice
                           (fst (foldl (\<lambda>s k. revertStep stepMap stepApply stepGetMap csteps k s)
                                   (revertStep stepMap stepApply stepGetMap csteps i (remap, tr)) js))
                           (j + 1)
             in mmaps later ! length (mmaps remap) = stepGetMap remapped
                \<and> mfrom later \<le> length (mmaps remap) \<and> length (mmaps remap) < mto later))"
proof -
  let ?s = "revertStep stepMap stepApply stepGetMap csteps i (remap, tr)"
  have a: "mmaps (fst ?s) = mmaps remap @ [stepGetMap remapped]"
    using assms by (simp add: revertStep_def maybeStep_def Mapping_appendMap_def)
  have b: "mirror (fst ?s) = Some ((case mirror remap of None \<Rightarrow> [] | Some ps \<Rightarrow> ps) @ [length (mmaps remap), i])"
    using assms by (simp add: revertStep_def maybeStep_def Mapping_appendMap_def)
  have c: "mmaps (fst ?s) ! i = mmaps remap ! i"
    using a assms(3) by (simp add: nth_append)
  have l: "revertLoop stepMap stepApply stepGetMap csteps (Suc i) (remap, tr)
           = foldl (\<lambda>s k. revertStep stepMap stepApply stepGetMap csteps k s) ?s (rev [0 ..< i])"
    by (simp add: revertLoop_foldl)
  have d: "\<And>js j. j < i \<Longrightarrow>
            (let later = Mapping_slice
                           (fst (foldl (\<lambda>s k. revertStep stepMap stepApply stepGetMap csteps k s) ?s js))
                           (j + 1)
             in mmaps later ! length (mmaps remap) = stepGetMap remapped
                \<and> mfrom later \<le> length (mmaps remap) \<and> length (mmaps remap) < mto later)"
  proof -
    fix js j assume ji: "j < i"
    obtain ms where ms: "mmaps (fst (foldl (\<lambda>s k. revertStep stepMap stepApply stepGetMap csteps k s) ?s js))
        = mmaps (fst ?s) @ ms"
      using revertSteps_maps_prefix by blast
    show "(let later = Mapping_slice
                           (fst (foldl (\<lambda>s k. revertStep stepMap stepApply stepGetMap csteps k s) ?s js))
                           (j + 1)
             in mmaps later ! length (mmaps remap) = stepGetMap remapped
                \<and> mfrom later \<le> length (mmaps remap) \<and> length (mmaps remap) < mto later)"
      using ms a ji assms(3) by (simp add: Mapping_slice_def Let_def nth_append)
  qed
  show ?thesis using a b c l d by blast
qed

theorem revertStep_appends_witness:
  "mmaps (fst (revertStep (\<lambda>s m. Some s) (\<lambda>s d. Some d) (\<lambda>s. [(1, 1, 0)]) [7, 8::nat] 1
                 (newMapping [[(3, 0, 1)], [(1, 0, 1)]], newTransaction (0::nat) 0)))
     = [[(3, 0, 1)], [(1, 0, 1)], [(1, 1, 0)]]
   \<and> mirror (fst (revertStep (\<lambda>s m. Some s) (\<lambda>s d. Some d) (\<lambda>s. [(1, 1, 0)]) [7, 8::nat] 1
                 (newMapping [[(3, 0, 1)], [(1, 0, 1)]], newTransaction (0::nat) 0)))
     = Some [2, 1]
   \<and> mto (Mapping_slice (fst (revertStep (\<lambda>s m. Some s) (\<lambda>s d. Some d) (\<lambda>s. [(1, 1, 0)]) [7, 8::nat] 1
                 (newMapping [[(3, 0, 1)], [(1, 0, 1)]], newTransaction (0::nat) 0))) 1) = 3"
proof -
  have 1: "(\<lambda>(s::nat) (m::Mapping). Some s) ([7, 8] ! 1) (Mapping_slice (newMapping [[(3, 0, 1)], [(1, 0, 1)]]) (1 + 1)) = Some 8"
    by simp
  have 2: "(\<lambda>(s::nat) (d::nat). Some d) 8 (tdoc (newTransaction (0::nat) 0 :: (nat, nat) Transaction)) = Some 0"
    by (simp add: newTransaction_def)
  have 3: "1 < length (mmaps (newMapping [[(3, 0, 1)], [(1, 0, 1)]]))"
    by (simp add: newMapping_def)
  show ?thesis
    using revertStep_appends [of "\<lambda>s m. Some s" "[7, 8]" 1 "newMapping [[(3, 0, 1)], [(1, 0, 1)]]" 8
            "\<lambda>s d. Some d" "newTransaction (0::nat) 0" 0 "\<lambda>s. [(1, 1, 0)]", OF 1 2 3]
    by (simp add: newMapping_def Mapping_slice_def revertStep_def maybeStep_def Mapping_appendMap_def)
qed

section \<open>The blame map covers the document\<close>

subsection \<open>Arithmetic of step maps\<close>

lemma validRanges_le: "validRanges lo hi rs \<Longrightarrow> lo \<le> hi"
proof (induction rs arbitrary: lo)
  case Nil
  then show ?case by simp
next
  case (Cons r rs)
  obtain s o' n where r: "r = (s, o', n)" by (cases r)
  from Cons.prems r have v: "lo \<le> s" "0 \<le> o'" "validRanges (s + o') hi rs" by auto
  from Cons.IH [OF v(3)] v show ?case by simp
qed

lemma sizeChange_Cons: "sizeChange ((s, o', n) # rs) = n - o' + sizeChange rs"
  by (simp add: sizeChange_def)

lemma validRanges_le_after: "validRanges lo hi rs \<Longrightarrow> lo \<le> hi + sizeChange rs"
proof (induction rs arbitrary: lo)
  case Nil
  then show ?case by (simp add: sizeChange_def)
next
  case (Cons r rs)
  obtain s o' n where r: "r = (s, o', n)" by (cases r)
  from Cons.prems r have v: "lo \<le> s" "0 \<le> o'" "0 \<le> n" "validRanges (s + o') hi rs" by auto
  from Cons.IH [OF v(4)] v show ?case by (simp add: r sizeChange_Cons)
qed

lemma mapFrom_lower: "validRanges lo hi rs \<Longrightarrow> lo \<le> q \<Longrightarrow> lo + d \<le> mapFrom rs d q a"
proof (induction rs arbitrary: lo d)
  case Nil
  then show ?case by simp
next
  case (Cons r rs)
  obtain s o' n where r: "r = (s, o', n)" by (cases r)
  from Cons.prems r have v: "lo \<le> s" "0 \<le> o'" "0 \<le> n" "validRanges (s + o') hi rs" by auto
  show ?case
  proof (cases "q \<le> s + o'")
    case True
    then show ?thesis using v Cons.prems by (simp add: r Let_def)
  next
    case False
    then have "s + o' + (d + n - o') \<le> mapFrom rs (d + n - o') q a"
      using Cons.IH [OF v(4), of "d + n - o'"] by simp
    then show ?thesis using False v by (simp add: r)
  qed
qed

lemma mapFrom_upper: "validRanges lo hi rs \<Longrightarrow> q \<le> hi \<Longrightarrow> mapFrom rs d q a \<le> hi + d + sizeChange rs"
proof (induction rs arbitrary: lo d)
  case Nil
  then show ?case by (simp add: sizeChange_def)
next
  case (Cons r rs)
  obtain s o' n where r: "r = (s, o', n)" by (cases r)
  from Cons.prems r have v: "lo \<le> s" "0 \<le> o'" "0 \<le> n" "validRanges (s + o') hi rs" by auto
  have le: "s + o' \<le> hi + sizeChange rs" using validRanges_le_after [OF v(4)] .
  show ?case
  proof (cases "q \<le> s + o'")
    case True
    then show ?thesis using v le Cons.prems by (simp add: r Let_def sizeChange_Cons)
  next
    case False
    then show ?thesis
      using Cons.IH [OF v(4) Cons.prems(2), of "d + n - o'"] v by (simp add: r sizeChange_Cons)
  qed
qed

lemma mapFrom_mono: "validRanges lo hi rs \<Longrightarrow> p \<le> q \<Longrightarrow> mapFrom rs d p a \<le> mapFrom rs d q a"
proof (induction rs arbitrary: lo d)
  case Nil
  then show ?case by simp
next
  case (Cons r rs)
  obtain s o' n where r: "r = (s, o', n)" by (cases r)
  from Cons.prems r have v: "lo \<le> s" "0 \<le> o'" "0 \<le> n" "validRanges (s + o') hi rs" by auto
  show ?case
  proof (cases "q \<le> s + o'")
    case True
    then show ?thesis using v Cons.prems by (auto simp: r Let_def)
  next
    case False
    have low: "s + d + n \<le> mapFrom rs (d + n - o') q a"
      using mapFrom_lower [OF v(4), of q "d + n - o'" a] False by simp
    show ?thesis
    proof (cases "p \<le> s + o'")
      case True
      then show ?thesis using False low v by (auto simp: r Let_def)
    next
      case pf: False
      then show ?thesis
        using Cons.IH [OF v(4) Cons.prems(2), of "d + n - o'"] False v by (simp add: r)
    qed
  qed
qed

lemma mapFrom_assoc: "validRanges lo hi rs \<Longrightarrow> mapFrom rs d p (- 1) \<le> mapFrom rs d p 1"
proof (induction rs arbitrary: lo d)
  case Nil
  then show ?case by simp
next
  case (Cons r rs)
  obtain s o' n where r: "r = (s, o', n)" by (cases r)
  from Cons.prems r have v: "lo \<le> s" "0 \<le> o'" "0 \<le> n" "validRanges (s + o') hi rs" by auto
  show ?case using Cons.IH [OF v(4), of "d + n - o'"] v by (auto simp: r Let_def)
qed

lemma mapAll_Cons: "mapAll (m # ms) p a = mapAll ms (StepMap_map m p a) a"
  by (simp add: mapAll_def)

lemma mapAll_mono: "validMaps n ms \<Longrightarrow> p \<le> q \<Longrightarrow> mapAll ms p a \<le> mapAll ms q a"
proof (induction ms arbitrary: n p q)
  case Nil
  then show ?case by (simp add: mapAll_def)
next
  case (Cons m ms)
  from Cons.prems have v: "validRanges 0 n m" "validMaps (n + sizeChange m) ms" by auto
  have "StepMap_map m p a \<le> StepMap_map m q a"
    using mapFrom_mono [OF v(1) Cons.prems(2)] by (simp add: StepMap_map_def)
  then show ?case using Cons.IH [OF v(2)] by (simp add: mapAll_Cons)
qed

lemma mapAll_assoc: "validMaps n ms \<Longrightarrow> mapAll ms p (- 1) \<le> mapAll ms p 1"
proof (induction ms arbitrary: n p)
  case Nil
  then show ?case by (simp add: mapAll_def)
next
  case (Cons m ms)
  from Cons.prems have v: "validRanges 0 n m" "validMaps (n + sizeChange m) ms" by auto
  have 1: "StepMap_map m p (- 1) \<le> StepMap_map m p 1"
    using mapFrom_assoc [OF v(1)] by (simp add: StepMap_map_def)
  have "mapAll ms (StepMap_map m p (- 1)) (- 1) \<le> mapAll ms (StepMap_map m p 1) (- 1)"
    using mapAll_mono [OF v(2) 1] .
  also have "\<dots> \<le> mapAll ms (StepMap_map m p 1) 1"
    using Cons.IH [OF v(2)] .
  finally show ?case by (simp add: mapAll_Cons)
qed

lemma forEachFrom_atom:
  "validRanges lo hi rs \<Longrightarrow> lo + d \<le> q \<Longrightarrow> q < hi + d + sizeChange rs \<Longrightarrow>
   (\<exists>(s, e, ns, ne) \<in> set (forEachFrom rs d). ns \<le> q \<and> q < ne)
   \<or> (\<exists>p. lo \<le> p \<and> p < hi \<and> mapFrom rs d p 1 \<le> q \<and> q < mapFrom rs d (p + 1) (- 1))"
proof (induction rs arbitrary: lo d)
  case Nil
  then have "lo \<le> q - d \<and> q - d < hi \<and> mapFrom [] d (q - d) 1 \<le> q \<and> q < mapFrom [] d (q - d + 1) (- 1)"
    by (simp add: sizeChange_def)
  then show ?case by blast
next
  case (Cons r rs)
  obtain s o' n where r: "r = (s, o', n)" by (cases r)
  from Cons.prems r have v: "lo \<le> s" "0 \<le> o'" "0 \<le> n" "validRanges (s + o') hi rs" by auto
  have hi: "s + o' \<le> hi" using validRanges_le [OF v(4)] .
  consider "q < s + d" | "s + d \<le> q" "q < s + d + n" | "s + d + n \<le> q" by linarith
  then show ?case
  proof cases
    case 1
    have "lo \<le> q - d \<and> q - d < hi \<and> mapFrom (r # rs) d (q - d) 1 \<le> q
          \<and> q < mapFrom (r # rs) d (q - d + 1) (- 1)"
      using 1 v hi Cons.prems(2) by (auto simp: r Let_def)
    then show ?thesis by blast
  next
    case 2
    then show ?thesis by (simp add: r)
  next
    case 3
    have a: "s + o' + (d + n - o') \<le> q" using 3 by simp
    have b: "q < hi + (d + n - o') + sizeChange rs" using Cons.prems(3) by (simp add: r sizeChange_Cons)
    from Cons.IH [OF v(4) a b]
    show ?thesis
    proof
      assume "\<exists>(s, e, ns, ne) \<in> set (forEachFrom rs (d + n - o')). ns \<le> q \<and> q < ne"
      then show ?thesis by (auto simp: r)
    next
      assume "\<exists>p. s + o' \<le> p \<and> p < hi \<and> mapFrom rs (d + n - o') p 1 \<le> q
                 \<and> q < mapFrom rs (d + n - o') (p + 1) (- 1)"
      then obtain p where p: "s + o' \<le> p" "p < hi" "mapFrom rs (d + n - o') p 1 \<le> q"
                 "q < mapFrom rs (d + n - o') (p + 1) (- 1)" by blast
      have "lo \<le> p \<and> p < hi \<and> mapFrom (r # rs) d p 1 \<le> q \<and> q < mapFrom (r # rs) d (p + 1) (- 1)"
        using p v 3 by (auto simp: r Let_def)
      then show ?thesis by blast
    qed
  qed
qed

lemma forEachFrom_bounds:
  "validRanges lo hi rs \<Longrightarrow> (s, e, ns, ne) \<in> set (forEachFrom rs d) \<Longrightarrow>
   lo + d \<le> ns \<and> ne \<le> hi + d + sizeChange rs"
proof (induction rs arbitrary: lo d)
  case Nil
  then show ?case by simp
next
  case (Cons r rs)
  obtain s0 o' n where r: "r = (s0, o', n)" by (cases r)
  from Cons.prems r have v: "lo \<le> s0" "0 \<le> o'" "0 \<le> n" "validRanges (s0 + o') hi rs" by auto
  have le: "s0 + o' \<le> hi + sizeChange rs" using validRanges_le_after [OF v(4)] .
  from Cons.prems(2) consider "(s, e, ns, ne) = (s0, s0 + o', s0 + d, s0 + d + n)"
    | "(s, e, ns, ne) \<in> set (forEachFrom rs (d + n - o'))" by (auto simp: r)
  then show ?case
  proof cases
    case 1
    then show ?thesis using v le by (simp add: r sizeChange_Cons)
  next
    case 2
    from Cons.IH [OF v(4) 2] v show ?thesis by (simp add: r sizeChange_Cons)
  qed
qed

lemma covI: "(x, y) \<in> F \<Longrightarrow> x \<le> q \<Longrightarrow> q < y \<Longrightarrow> q \<in> cov F"
  by (force simp: cov_def)

lemma covE: "q \<in> cov F \<Longrightarrow> \<exists>x y. (x, y) \<in> F \<and> x \<le> q \<and> q < y"
  by (fastforce simp: cov_def)

lemma cov_stepFamily:
  assumes v: "validRanges 0 n m" and c: "cov F = {0 ..< n}"
  shows "cov (stepFamily m F) = {0 ..< n + sizeChange m}"
proof (intro set_eqI iffI)
  fix q assume "q \<in> cov (stepFamily m F)"
  then obtain x y where xy: "(x, y) \<in> stepFamily m F" "x \<le> q" "q < y"
    using covE by blast
  from xy(1) consider x0 y0 where "(x0, y0) \<in> F" "x = StepMap_map m x0 1" "y = StepMap_map m y0 (- 1)"
    | s e where "(s, e, x, y) \<in> set (forEach m)"
    by (auto simp: stepFamily_def)
  then show "q \<in> {0 ..< n + sizeChange m}"
  proof cases
    case 1
    have "x0 < y0"
    proof (rule ccontr)
      assume "\<not> x0 < y0"
      then have "y0 \<le> x0" by simp
      then have "StepMap_map m y0 (- 1) \<le> StepMap_map m x0 (- 1)"
        using mapFrom_mono [OF v] by (simp add: StepMap_map_def)
      also have "\<dots> \<le> StepMap_map m x0 1"
        using mapFrom_assoc [OF v] by (simp add: StepMap_map_def)
      finally show False using 1 xy by simp
    qed
    then have "x0 \<in> cov F" "y0 - 1 \<in> cov F" using 1(1) covI [of x0 y0 F] by auto
    then have b: "0 \<le> x0" "y0 \<le> n" using c by auto
    have "0 \<le> x" using mapFrom_lower [OF v b(1), of 0 1] 1 by (simp add: StepMap_map_def)
    moreover have "y \<le> n + sizeChange m" using mapFrom_upper [OF v b(2), of 0 "- 1"] 1 by (simp add: StepMap_map_def)
    ultimately show ?thesis using xy by simp
  next
    case 2
    then show ?thesis using forEachFrom_bounds [OF v, of s e x y 0] xy by (simp add: forEach_def)
  qed
next
  fix q assume "q \<in> {0 ..< n + sizeChange m}"
  then have q: "0 + 0 \<le> q" "q < n + 0 + sizeChange m" by auto
  from forEachFrom_atom [OF v q]
  show "q \<in> cov (stepFamily m F)"
  proof
    assume "\<exists>(s, e, ns, ne) \<in> set (forEachFrom m 0). ns \<le> q \<and> q < ne"
    then obtain s e ns ne where "(s, e, ns, ne) \<in> set (forEach m)" "ns \<le> q" "q < ne"
      by (auto simp: forEach_def)
    then show ?thesis using covI [of ns ne "stepFamily m F" q] by (force simp: stepFamily_def)
  next
    assume "\<exists>p. 0 \<le> p \<and> p < n \<and> mapFrom m 0 p 1 \<le> q \<and> q < mapFrom m 0 (p + 1) (- 1)"
    then obtain p where p: "0 \<le> p" "p < n" "StepMap_map m p 1 \<le> q" "q < StepMap_map m (p + 1) (- 1)"
      by (auto simp: StepMap_map_def)
    then have "p \<in> cov F" using c by simp
    then obtain x y where xy: "(x, y) \<in> F" "x \<le> p" "p < y" using covE by blast
    have "StepMap_map m x 1 \<le> StepMap_map m p 1"
      using mapFrom_mono [OF v xy(2)] by (simp add: StepMap_map_def)
    moreover have "StepMap_map m (p + 1) (- 1) \<le> StepMap_map m y (- 1)"
      using mapFrom_mono [OF v, of "p + 1" y] xy(3) by (simp add: StepMap_map_def)
    ultimately have "StepMap_map m x 1 \<le> q \<and> q < StepMap_map m y (- 1)" using p by simp
    moreover have "(StepMap_map m x 1, StepMap_map m y (- 1)) \<in> stepFamily m F"
      using xy(1) by (force simp: stepFamily_def)
    ultimately show ?thesis using covI by blast
  qed
qed

lemma cover_Nil: "cover [] = {}"
  by (simp add: cover_def)

lemma cover_Cons: "cover (s # m) = {sfrom s ..< sto s} \<union> cover m"
  by (simp add: cover_def)

lemma chainS_mono: "chainS lo m \<Longrightarrow> lo' \<le> lo \<Longrightarrow> chainS lo' m"
  by (cases m) auto

lemma chainS_chain: "chainS lo m \<Longrightarrow> chain lo m"
  by (induction m arbitrary: lo) auto

lemma chainS_mem: "chainS lo m \<Longrightarrow> x \<in> set m \<Longrightarrow> lo \<le> sfrom x \<and> lo < sto x"
proof (induction m arbitrary: lo)
  case Nil
  then show ?case by simp
next
  case (Cons s m)
  from Cons.prems(2) consider "x = s" | "x \<in> set m" by auto
  then show ?case
  proof cases
    case 1
    then show ?thesis using Cons.prems(1) by simp
  next
    case 2
    from Cons.prems(1) have "chainS (sto s) m" "lo \<le> sfrom s" "sfrom s < sto s" by auto
    with Cons.IH [of "sto s"] 2 show ?thesis by force
  qed
qed

lemma ivl_join:
  "f < t \<Longrightarrow> a < b \<Longrightarrow> a \<le> t \<Longrightarrow> f \<le> b \<Longrightarrow>
   {min f a ..< max t b} = {f ..< t} \<union> {a ..< (b::int)}"
  by (auto simp: min_def max_def)

lemma ivl_trunc:
  "f \<le> a \<Longrightarrow> a < t \<Longrightarrow> t < b \<Longrightarrow> {f ..< t} \<union> {t ..< b} = {f ..< t} \<union> {a ..< (b::int)}"
  by auto

lemma ivl_inside:
  "f \<le> a \<Longrightarrow> b \<le> t \<Longrightarrow> {f ..< t} \<union> {a ..< b} = {f ..< (t::int)}"
  by auto

lemma scanRight_inv:
  "chainS lo r \<Longrightarrow> f < t \<Longrightarrow>
   \<forall>x \<in> set r. f \<le> sto x \<and> (scommit x \<noteq> Some c \<longrightarrow> f \<le> sfrom x) \<Longrightarrow>
   scanRight r f t c = (f', t', r') \<Longrightarrow>
   f' \<le> f \<and> t \<le> t' \<and> min lo f \<le> f' \<and> chainS t' r'
   \<and> {f' ..< t'} \<union> cover r' = {f ..< t} \<union> cover r
   \<and> ((\<forall>x \<in> set r. f \<le> sfrom x) \<longrightarrow> f' = f)"
proof (induction r f t c arbitrary: lo rule: scanRight.induct)
  case (1 f t c)
  then show ?case by (simp add: cover_Nil)
next
  case (2 nxt rest f t c)
  from "2.prems"(1) have ch: "lo \<le> sfrom nxt" "sfrom nxt < sto nxt" "chainS (sto nxt) rest" by auto
  from "2.prems"(3) have nx: "f \<le> sto nxt" "scommit nxt \<noteq> Some c \<longrightarrow> f \<le> sfrom nxt"
    and rs: "\<forall>x \<in> set rest. f \<le> sto x \<and> (scommit x \<noteq> Some c \<longrightarrow> f \<le> sfrom x)" by simp_all
  show ?case
  proof (cases "scommit nxt = Some c")
    case True
    show ?thesis
    proof (cases "sfrom nxt > t")
      case gt: True
      then have e: "f' = f" "t' = t" "r' = nxt # rest" using "2.prems"(4) True by simp_all
      have "chainS t (nxt # rest)" using ch gt by simp
      then show ?thesis using e by simp
    next
      case le: False
      let ?f = "min f (sfrom nxt)" and ?t = "max t (sto nxt)"
      have call: "scanRight rest ?f ?t c = (f', t', r')" using "2.prems"(4) True le by simp
      have pre: "\<forall>x \<in> set rest. ?f \<le> sto x \<and> (scommit x \<noteq> Some c \<longrightarrow> ?f \<le> sfrom x)"
        using rs by (simp add: min_le_iff_disj)
      have lt: "?f < ?t" using "2.prems"(2) by (simp add: min_less_iff_disj less_max_iff_disj)
      have ih: "f' \<le> ?f \<and> ?t \<le> t' \<and> min (sto nxt) ?f \<le> f' \<and> chainS t' r'
        \<and> {f' ..< t'} \<union> cover r' = {?f ..< ?t} \<union> cover rest
        \<and> ((\<forall>x \<in> set rest. ?f \<le> sfrom x) \<longrightarrow> f' = ?f)"
        using "2.IH"(1) [OF True _ ch(3) lt pre call] le by simp
      have un: "{?f ..< ?t} = {f ..< t} \<union> {sfrom nxt ..< sto nxt}"
        using le nx(1) "2.prems"(2) ch(2) by (intro ivl_join) simp_all
      have c1: "f' \<le> f" using ih by simp
      have c2: "t \<le> t'" using ih by simp
      have c3: "min lo f \<le> f'" using ih ch by linarith
      have c4: "chainS t' r'" using ih by simp
      have "{f' ..< t'} \<union> cover r' = {?f ..< ?t} \<union> cover rest" using ih by simp
      then have c5: "{f' ..< t'} \<union> cover r' = {f ..< t} \<union> cover (nxt # rest)"
        unfolding un cover_Cons by (simp add: Un_assoc)
      have c6: "(\<forall>x \<in> set (nxt # rest). f \<le> sfrom x) \<longrightarrow> f' = f"
      proof
        assume a: "\<forall>x \<in> set (nxt # rest). f \<le> sfrom x"
        then have "?f = f" by simp
        moreover have "\<forall>x \<in> set rest. ?f \<le> sfrom x" using a by (simp add: min_le_iff_disj)
        ultimately show "f' = f" using ih by simp
      qed
      show ?thesis using c1 c2 c3 c4 c5 c6 by blast
    qed
  next
    case False
    then have fl: "f \<le> sfrom nxt" using nx(2) by simp
    show ?thesis
    proof (cases "sfrom nxt \<ge> t")
      case ge: True
      then have e: "f' = f" "t' = t" "r' = nxt # rest" using "2.prems"(4) False by simp_all
      have "chainS t (nxt # rest)" using ch ge by simp
      then show ?thesis using e by simp
    next
      case lt: False
      show ?thesis
      proof (cases "sto nxt > t")
        case True
        then have e: "f' = f" "t' = t" "r' = mkSpan t (sto nxt) (scommit nxt) # rest"
          using "2.prems"(4) False lt by auto
        have c4: "chainS t (mkSpan t (sto nxt) (scommit nxt) # rest)"
          using ch True by (simp add: mkSpan_def)
        have "{f ..< t} \<union> {t ..< sto nxt} = {f ..< t} \<union> {sfrom nxt ..< sto nxt}"
          using fl lt True by (intro ivl_trunc) simp_all
        then have c5: "{f ..< t} \<union> cover (mkSpan t (sto nxt) (scommit nxt) # rest)
                     = {f ..< t} \<union> cover (nxt # rest)"
          by (simp add: cover_Cons mkSpan_def Un_assoc [symmetric])
        show ?thesis using e c4 c5 by simp
      next
        case le: False
        have call: "scanRight rest f t c = (f', t', r')" using "2.prems"(4) False lt le by simp
        have ih: "f' \<le> f \<and> t \<le> t' \<and> min (sto nxt) f \<le> f' \<and> chainS t' r'
          \<and> {f' ..< t'} \<union> cover r' = {f ..< t} \<union> cover rest
          \<and> ((\<forall>x \<in> set rest. f \<le> sfrom x) \<longrightarrow> f' = f)"
          using "2.IH"(2) [OF False _ _ ch(3) "2.prems"(2) rs call] lt le by simp
        have c3: "min lo f \<le> f'" using ih ch by linarith
        have "{f ..< t} \<union> {sfrom nxt ..< sto nxt} = {f ..< t}"
          using fl le by (intro ivl_inside) simp_all
        then have "{f ..< t} \<union> cover (nxt # rest) = {f ..< t} \<union> cover rest"
          by (simp add: cover_Cons Un_assoc [symmetric])
        then have c5: "{f' ..< t'} \<union> cover r' = {f ..< t} \<union> cover (nxt # rest)"
          using ih by simp
        have c6: "(\<forall>x \<in> set (nxt # rest). f \<le> sfrom x) \<longrightarrow> f' = f"
          using ih by simp
        show ?thesis using ih c3 c5 c6 by blast
      qed
    qed
  qed
qed

lemma insert_skip:
  "f < t \<Longrightarrow> (scommit s = Some c \<and> sto s < f) \<or> (scommit s \<noteq> Some c \<and> sto s \<le> f) \<Longrightarrow>
   insertIntoBlameMap (s # m) f t c = s # insertIntoBlameMap m f t c"
  by (auto simp: insertIntoBlameMap_def split: prod.splits)

lemma insert_stop:
  "f < t \<Longrightarrow> (scommit s = Some c \<and> f \<le> sto s) \<or> (scommit s \<noteq> Some c \<and> f < sto s \<and> f \<le> sfrom s) \<Longrightarrow>
   scanRight (s # m) f t c = (f', t', r') \<Longrightarrow>
   insertIntoBlameMap (s # m) f t c = mkSpan f' t' (Some c) # r'"
  by (auto simp: insertIntoBlameMap_def)

lemma insert_split:
  "f < t \<Longrightarrow> scommit s \<noteq> Some c \<Longrightarrow> sfrom s < f \<Longrightarrow> t < sto s \<Longrightarrow>
   insertIntoBlameMap (s # m) f t c
     = mkSpan (sfrom s) f (scommit s) # mkSpan f t (Some c) # mkSpan t (sto s) (scommit s) # m"
  by (auto simp: insertIntoBlameMap_def Let_def)

lemma insert_left:
  "f < t \<Longrightarrow> scommit s \<noteq> Some c \<Longrightarrow> sfrom s < f \<Longrightarrow> f < sto s \<Longrightarrow> sto s \<le> t \<Longrightarrow>
   scanRight m f t c = (f', t', r') \<Longrightarrow>
   insertIntoBlameMap (s # m) f t c = mkSpan (sfrom s) f (scommit s) # mkSpan f' t' (Some c) # r'"
  by (auto simp: insertIntoBlameMap_def Let_def)

lemma ivl_split3:
  "a < f \<Longrightarrow> f < t \<Longrightarrow> t < b \<Longrightarrow> {a ..< f} \<union> ({f ..< t} \<union> {t ..< b}) = {a ..< b} \<union> {f ..< (t::int)}"
  by auto

lemma ivl_left:
  "a < f \<Longrightarrow> f < b \<Longrightarrow> b \<le> t \<Longrightarrow> {a ..< f} \<union> {f ..< t} = {a ..< b} \<union> {f ..< (t::int)}"
  by auto

lemma insert_inv:
  "chainS lo m \<Longrightarrow> f < t \<Longrightarrow>
   chainS (min lo f) (insertIntoBlameMap m f t c)
   \<and> cover (insertIntoBlameMap m f t c) = cover m \<union> {f ..< t}"
proof (induction m arbitrary: lo)
  case Nil
  then show ?case by (simp add: insertIntoBlameMap_def cover_def mkSpan_def)
next
  case (Cons s m)
  from Cons.prems(1) have ch: "lo \<le> sfrom s" "sfrom s < sto s" "chainS (sto s) m" by auto
  have later: "\<And>x. x \<in> set m \<Longrightarrow> sto s \<le> sfrom x \<and> sto s < sto x"
    using chainS_mem [OF ch(3)] by simp
  consider (skip) "(scommit s = Some c \<and> sto s < f) \<or> (scommit s \<noteq> Some c \<and> sto s \<le> f)"
    | (stop) "(scommit s = Some c \<and> f \<le> sto s) \<or> (scommit s \<noteq> Some c \<and> f < sto s \<and> f \<le> sfrom s)"
    | (split) "scommit s \<noteq> Some c" "sfrom s < f" "t < sto s"
    | (left) "scommit s \<noteq> Some c" "sfrom s < f" "f < sto s" "sto s \<le> t"
    by linarith
  then show ?case
  proof cases
    case skip
    have eq: "insertIntoBlameMap (s # m) f t c = s # insertIntoBlameMap m f t c"
      using insert_skip [OF Cons.prems(2) skip] .
    have le: "sto s \<le> f" using skip by auto
    have ih: "chainS (min (sto s) f) (insertIntoBlameMap m f t c)"
             "cover (insertIntoBlameMap m f t c) = cover m \<union> {f ..< t}"
      using Cons.IH [OF ch(3) Cons.prems(2)] by simp_all
    have "chainS (sto s) (insertIntoBlameMap m f t c)" using ih(1) le by (simp add: min_def)
    then have "chainS lo (s # insertIntoBlameMap m f t c)" using ch by simp
    then have "chainS (min lo f) (s # insertIntoBlameMap m f t c)"
      by (rule chainS_mono) simp
    moreover have "cover (s # insertIntoBlameMap m f t c) = cover (s # m) \<union> {f ..< t}"
      using ih(2) by (simp add: cover_Cons Un_assoc)
    ultimately show ?thesis using eq by simp
  next
    case stop
    obtain f' t' r' where sr: "scanRight (s # m) f t c = (f', t', r')"
      by (cases "scanRight (s # m) f t c")
    have eq: "insertIntoBlameMap (s # m) f t c = mkSpan f' t' (Some c) # r'"
      using insert_stop [OF Cons.prems(2) stop sr] .
    have pre: "\<forall>x \<in> set (s # m). f \<le> sto x \<and> (scommit x \<noteq> Some c \<longrightarrow> f \<le> sfrom x)"
    proof
      fix x assume "x \<in> set (s # m)"
      then consider "x = s" | "x \<in> set m" by auto
      then show "f \<le> sto x \<and> (scommit x \<noteq> Some c \<longrightarrow> f \<le> sfrom x)"
      proof cases
        case 1
        then show ?thesis using stop by auto
      next
        case 2
        have "f \<le> sto s" using stop by auto
        then show ?thesis using later [OF 2] by simp
      qed
    qed
    have r: "f' \<le> f \<and> t \<le> t' \<and> min lo f \<le> f' \<and> chainS t' r'
             \<and> {f' ..< t'} \<union> cover r' = {f ..< t} \<union> cover (s # m)"
      using scanRight_inv [OF Cons.prems(1) Cons.prems(2) pre sr] by simp
    have "f' < t'" using r Cons.prems(2) by linarith
    then have "chainS (min lo f) (mkSpan f' t' (Some c) # r')" using r by (simp add: mkSpan_def)
    moreover have "cover (mkSpan f' t' (Some c) # r') = cover (s # m) \<union> {f ..< t}"
      using r by (simp add: cover_Cons mkSpan_def Un_commute)
    ultimately show ?thesis using eq by simp
  next
    case split
    have eq: "insertIntoBlameMap (s # m) f t c
       = mkSpan (sfrom s) f (scommit s) # mkSpan f t (Some c) # mkSpan t (sto s) (scommit s) # m"
      using insert_split [OF Cons.prems(2) split] .
    have "chainS (min lo f) (mkSpan (sfrom s) f (scommit s) # mkSpan f t (Some c) # mkSpan t (sto s) (scommit s) # m)"
      using ch split Cons.prems(2) by (simp add: mkSpan_def)
    moreover have "cover (mkSpan (sfrom s) f (scommit s) # mkSpan f t (Some c) # mkSpan t (sto s) (scommit s) # m)
        = cover (s # m) \<union> {f ..< t}"
    proof -
      have "cover (mkSpan (sfrom s) f (scommit s) # mkSpan f t (Some c) # mkSpan t (sto s) (scommit s) # m)
          = ({sfrom s ..< f} \<union> ({f ..< t} \<union> {t ..< sto s})) \<union> cover m"
        by (simp add: cover_Cons mkSpan_def Un_assoc)
      also have "\<dots> = ({sfrom s ..< sto s} \<union> {f ..< t}) \<union> cover m"
        using ivl_split3 [OF split(2) Cons.prems(2) split(3)] by simp
      also have "\<dots> = cover (s # m) \<union> {f ..< t}"
        by (simp add: cover_Cons Un_assoc Un_commute Un_left_commute)
      finally show ?thesis .
    qed
    ultimately show ?thesis using eq by simp
  next
    case left
    obtain f' t' r' where sr: "scanRight m f t c = (f', t', r')"
      by (cases "scanRight m f t c")
    have eq: "insertIntoBlameMap (s # m) f t c = mkSpan (sfrom s) f (scommit s) # mkSpan f' t' (Some c) # r'"
      using insert_left [OF Cons.prems(2) left sr] .
    have fr: "\<forall>x \<in> set m. f \<le> sfrom x" using later left by force
    have pre: "\<forall>x \<in> set m. f \<le> sto x \<and> (scommit x \<noteq> Some c \<longrightarrow> f \<le> sfrom x)"
      using later left by force
    have r: "f' = f \<and> t \<le> t' \<and> chainS t' r' \<and> {f' ..< t'} \<union> cover r' = {f ..< t} \<union> cover m"
      using scanRight_inv [OF ch(3) Cons.prems(2) pre sr] fr by blast
    have "chainS (min lo f) (mkSpan (sfrom s) f (scommit s) # mkSpan f' t' (Some c) # r')"
      using r ch left Cons.prems(2) by (simp add: mkSpan_def)
    moreover have "cover (mkSpan (sfrom s) f (scommit s) # mkSpan f' t' (Some c) # r')
        = cover (s # m) \<union> {f ..< t}"
    proof -
      have "cover (mkSpan (sfrom s) f (scommit s) # mkSpan f' t' (Some c) # r')
          = {sfrom s ..< f} \<union> ({f' ..< t'} \<union> cover r')"
        by (simp add: cover_Cons mkSpan_def)
      also have "\<dots> = {sfrom s ..< f} \<union> ({f ..< t} \<union> cover m)"
      proof -
        have "{f' ..< t'} \<union> cover r' = {f ..< t} \<union> cover m" using r by blast
        then show ?thesis by (rule arg_cong)
      qed
      also have "\<dots> = ({sfrom s ..< f} \<union> {f ..< t}) \<union> cover m"
        by (simp add: Un_assoc)
      also have "\<dots> = ({sfrom s ..< sto s} \<union> {f ..< t}) \<union> cover m"
        using ivl_left [OF left(2) left(3) left(4)] by simp
      also have "\<dots> = cover (s # m) \<union> {f ..< t}"
        by (simp add: cover_Cons Un_assoc Un_commute Un_left_commute)
      finally show ?thesis .
    qed
    ultimately show ?thesis using eq by simp
  qed
qed

lemma insertIntoBlameMap_inv:
  "chainS lo m \<Longrightarrow>
   chainS (min lo f) (insertIntoBlameMap m f t c)
   \<and> cover (insertIntoBlameMap m f t c) = cover m \<union> {f ..< t}"
proof (cases "f < t")
  case True
  assume "chainS lo m"
  then show ?thesis using insert_inv True by blast
next
  case False
  assume ch: "chainS lo m"
  have "insertIntoBlameMap m f t c = m" using False by (simp add: insertIntoBlameMap_def)
  moreover have "chainS (min lo f) m" using ch by (rule chainS_mono) simp
  moreover have "{f ..< t} = {}" using False by simp
  ultimately show ?thesis by simp
qed

lemma mapFamily_Nil: "mapFamily [] F = F"
  by (force simp: mapFamily_def mapAll_def)

lemma mapFamily_Un: "mapFamily ms (A \<union> B) = mapFamily ms A \<union> mapFamily ms B"
  by (simp add: mapFamily_def image_Un)

lemma mapFamily_Cons:
  "mapFamily (m # ms) F = mapFamily ms ((\<lambda>(x, y). (StepMap_map m x 1, StepMap_map m y (- 1))) ` F)"
  by (force simp: mapFamily_def mapAll_Cons image_image)

lemma family_Cons:
  "mapFamily (m # ms) F \<union> insFamily (m # ms) = mapFamily ms (stepFamily m F) \<union> insFamily ms"
  by (simp add: mapFamily_Cons stepFamily_def mapFamily_Un Un_assoc)

lemma cov_all:
  "validMaps n ms \<Longrightarrow> cov F = {0 ..< n} \<Longrightarrow>
   cov (mapFamily ms F \<union> insFamily ms) = {0 ..< n + sum_list (map sizeChange ms)}"
proof (induction ms arbitrary: n F)
  case Nil
  then show ?case by (simp add: mapFamily_Nil)
next
  case (Cons m ms)
  from Cons.prems(1) have v: "validRanges 0 n m" "validMaps (n + sizeChange m) ms" by auto
  have c: "cov (stepFamily m F) = {0 ..< n + sizeChange m}"
    using cov_stepFamily [OF v(1) Cons.prems(2)] .
  have "cov (mapFamily ms (stepFamily m F) \<union> insFamily ms)
          = {0 ..< n + sizeChange m + sum_list (map sizeChange ms)}"
    using Cons.IH [OF v(2) c] .
  then have "cov (mapFamily (m # ms) F \<union> insFamily (m # ms))
          = {0 ..< n + sizeChange m + sum_list (map sizeChange ms)}"
    by (subst family_Cons)
  then show ?case by (simp add: add.assoc del: insFamily.simps)
qed

lemma cov_Un: "cov (A \<union> B) = cov A \<union> cov B"
  by (simp add: cov_def)

lemma insAt_Cons_0: "insAt (m # ms) 0 = cov (mapFamily ms ((\<lambda>(s, e, ns, ne). (ns, ne)) ` set (forEach m)))"
  by (simp add: insAt_def)

lemma insAt_Cons_Suc: "insAt (m # ms) (Suc i) = insAt ms i"
  by (simp add: insAt_def)

lemma insAt_all: "(\<Union>i \<in> {..< length ms}. insAt ms i) = cov (insFamily ms)"
proof (induction ms)
  case Nil
  then show ?case by (simp add: cov_def)
next
  case (Cons m ms)
  have "{..< length (m # ms)} = insert 0 (Suc ` {..< length ms})"
    by (simp add: lessThan_Suc_eq_insert_0)
  then have "(\<Union>i \<in> {..< length (m # ms)}. insAt (m # ms) i)
      = insAt (m # ms) 0 \<union> (\<Union>i \<in> {..< length ms}. insAt (m # ms) (Suc i))"
    by simp
  also have "\<dots> = cov (mapFamily ms ((\<lambda>(s, e, ns, ne). (ns, ne)) ` set (forEach m))) \<union> cov (insFamily ms)"
    using Cons.IH by (simp add: insAt_Cons_0 insAt_Cons_Suc)
  finally show ?case by (simp add: cov_Un)
qed

lemma sortedSpans_insert:
  "sortedSpans m \<Longrightarrow> sortedSpans (insertIntoBlameMap m f t c)
     \<and> cover (insertIntoBlameMap m f t c) = cover m \<union> {f ..< t}"
  unfolding sortedSpans_def using insertIntoBlameMap_inv by blast

lemma forEach_fold_inv:
  "sortedSpans res \<Longrightarrow>
   sortedSpans (foldl (\<lambda>res (s, e, start, end). insertIntoBlameMap res (g start 1) (g end (- 1)) c) res xs)
   \<and> cover (foldl (\<lambda>res (s, e, start, end). insertIntoBlameMap res (g start 1) (g end (- 1)) c) res xs)
       = cover res \<union> cov ((\<lambda>(s, e, ns, ne). (g ns 1, g ne (- 1))) ` set xs)"
proof (induction xs arbitrary: res)
  case Nil
  then show ?case by (simp add: cov_def)
next
  case (Cons x xs)
  obtain s e ns ne where x: "x = (s, e, ns, ne)" by (cases x)
  let ?res = "insertIntoBlameMap res (g ns 1) (g ne (- 1)) c"
  have 1: "sortedSpans ?res" "cover ?res = cover res \<union> {g ns 1 ..< g ne (- 1)}"
    using sortedSpans_insert [OF Cons.prems] by simp_all
  have 2: "cov ((\<lambda>(s, e, ns, ne). (g ns 1, g ne (- 1))) ` set (x # xs))
         = {g ns 1 ..< g ne (- 1)} \<union> cov ((\<lambda>(s, e, ns, ne). (g ns 1, g ne (- 1))) ` set xs)"
    by (simp add: x cov_def)
  show ?case using Cons.IH [OF 1(1)] 1(2) 2 by (simp add: x Un_assoc)
qed

lemma Mapping_map_plain:
  "mirror mp = None \<Longrightarrow> mfrom mp = 0 \<Longrightarrow> mto mp = length (mmaps mp) \<Longrightarrow>
   Mapping_map mp p a = mapAll (mmaps mp) p a"
  by (simp add: Mapping_map_def mapAll_def)

lemma Mapping_map_slice:
  "mirror mp = None \<Longrightarrow> Mapping_map (Mapping_slice mp i) p a = mapAll (drop i (mmaps mp)) p a"
  by (simp add: Mapping_map_def Mapping_slice_def mapAll_def)

lemma insertRangesOf_inv:
  assumes "mirror mp = None" and "sortedSpans res"
  shows "sortedSpans (insertRangesOf mp c i res)
       \<and> cover (insertRangesOf mp c i res) = cover res \<union> insAt (mmaps mp) i"
proof -
  have g: "Mapping_map (Mapping_slice mp (Suc i)) = mapAll (drop (Suc i) (mmaps mp))"
    using Mapping_map_slice [OF assms(1)] by (intro ext) simp
  have f: "(\<lambda>(s, e, ns, ne). (mapAll (drop (Suc i) (mmaps mp)) ns 1, mapAll (drop (Suc i) (mmaps mp)) ne (- 1)))
             ` set (forEach (mmaps mp ! i))
           = mapFamily (drop (Suc i) (mmaps mp)) ((\<lambda>(s, e, ns, ne). (ns, ne)) ` set (forEach (mmaps mp ! i)))"
    by (force simp: mapFamily_def image_image)
  show ?thesis
    using forEach_fold_inv [OF assms(2), of "mapAll (drop (Suc i) (mmaps mp))" c "forEach (mmaps mp ! i)"]
    by (simp add: insertRangesOf_def Let_def g insAt_def f)
qed

lemma insertRanges_fold_inv:
  assumes "mirror mp = None"
  shows "sortedSpans res \<Longrightarrow>
     sortedSpans (foldl (\<lambda>res i. insertRangesOf mp c i res) res js)
     \<and> cover (foldl (\<lambda>res i. insertRangesOf mp c i res) res js)
         = cover res \<union> (\<Union>i \<in> set js. insAt (mmaps mp) i)"
proof (induction js arbitrary: res)
  case Nil
  then show ?case by simp
next
  case (Cons j js)
  have 1: "sortedSpans (insertRangesOf mp c j res)"
          "cover (insertRangesOf mp c j res) = cover res \<union> insAt (mmaps mp) j"
    using insertRangesOf_inv [OF assms Cons.prems] by simp_all
  show ?case using Cons.IH [OF 1(1)] 1(2) by (simp add: Un_assoc)
qed

lemma chainS_lower: "chainS lo m \<Longrightarrow> lo' \<le> lo \<Longrightarrow> chainS lo' m"
  by (rule chainS_mono)

lemma survivors_chainS:
  assumes mono: "\<And>p q a. p \<le> q \<Longrightarrow> Mapping_map mp p a \<le> Mapping_map mp q a"
      and assoc: "\<And>p. Mapping_map mp p (- 1) \<le> Mapping_map mp p 1"
  shows "chain lo m \<Longrightarrow> chainS (Mapping_map mp lo (- 1)) (survivors mp m)"
proof (induction m arbitrary: lo)
  case Nil
  then show ?case by simp
next
  case (Cons s m)
  from Cons.prems have ch: "lo \<le> sfrom s" "sfrom s \<le> sto s" "chain (sto s) m" by auto
  have ih: "chainS (Mapping_map mp (sto s) (- 1)) (survivors mp m)" using Cons.IH [OF ch(3)] .
  have a: "Mapping_map mp lo (- 1) \<le> Mapping_map mp (sfrom s) 1"
    using mono [OF ch(1), of "- 1"] assoc [of "sfrom s"] by linarith
  have b: "Mapping_map mp lo (- 1) \<le> Mapping_map mp (sto s) (- 1)"
    using mono [of lo "sto s" "- 1"] ch by linarith
  show ?case
  proof (cases "Mapping_map mp (sfrom s) 1 < Mapping_map mp (sto s) (- 1)")
    case True
    then show ?thesis using ih a by (simp add: Let_def mkSpan_def)
  next
    case False
    then show ?thesis using chainS_lower [OF ih b] by (simp add: Let_def)
  qed
qed

lemma cov_insert: "cov (insert (x, y) F) = {x ..< y} \<union> cov F"
  by (simp add: cov_def)

lemma survivors_cover:
  "cover (survivors mp m)
     = cov ((\<lambda>s. (Mapping_map mp (sfrom s) 1, Mapping_map mp (sto s) (- 1))) ` set m)"
proof (induction m)
  case Nil
  then show ?case by (simp add: cover_def cov_def)
next
  case (Cons s m)
  show ?case
  proof (cases "Mapping_map mp (sfrom s) 1 < Mapping_map mp (sto s) (- 1)")
    case True
    then show ?thesis using Cons.IH by (simp add: Let_def cover_Cons cov_insert mkSpan_def)
  next
    case False
    then have "{Mapping_map mp (sfrom s) 1 ..< Mapping_map mp (sto s) (- 1)} = {}" by simp
    then show ?thesis using False Cons.IH by (simp add: Let_def cov_insert)
  qed
qed

lemma cover_as_cov: "cover m = cov ((\<lambda>s. (sfrom s, sto s)) ` set m)"
  by (simp add: cover_def cov_def)

lemma updateBlameMap_inv:
  assumes m0: "mirror mp = None" and m1: "mfrom mp = 0" and m2: "mto mp = length (mmaps mp)"
      and v: "validMaps n (mmaps mp)" and ch: "chain lo m" and cv: "cover m = {0 ..< n}"
  shows "sortedSpans (updateBlameMap m mp c)
       \<and> cover (updateBlameMap m mp c) = {0 ..< n + sum_list (map sizeChange (mmaps mp))}"
proof -
  have M: "\<And>p a. Mapping_map mp p a = mapAll (mmaps mp) p a"
    using Mapping_map_plain [OF m0 m1 m2] .
  have mono: "\<And>p q a. p \<le> q \<Longrightarrow> Mapping_map mp p a \<le> Mapping_map mp q a"
    using mapAll_mono [OF v] M by simp
  have assoc: "\<And>p. Mapping_map mp p (- 1) \<le> Mapping_map mp p 1"
    using mapAll_assoc [OF v] M by simp
  have s1: "sortedSpans (survivors mp m)"
    using survivors_chainS [OF mono assoc ch] unfolding sortedSpans_def by blast
  let ?F = "(\<lambda>s. (sfrom s, sto s)) ` set m"
  have F: "cov ?F = {0 ..< n}" using cv cover_as_cov by simp
  have "(\<lambda>s. (Mapping_map mp (sfrom s) 1, Mapping_map mp (sto s) (- 1))) ` set m = mapFamily (mmaps mp) ?F"
    by (simp add: mapFamily_def image_image M)
  then have s2: "cover (survivors mp m) = cov (mapFamily (mmaps mp) ?F)"
    using survivors_cover by simp
  have fold: "sortedSpans (updateBlameMap m mp c)"
     "cover (updateBlameMap m mp c)
         = cover (survivors mp m) \<union> (\<Union>i \<in> set [0 ..< length (mmaps mp)]. insAt (mmaps mp) i)"
    using insertRanges_fold_inv [OF m0 s1, of c "[0 ..< length (mmaps mp)]"]
    by (simp_all add: updateBlameMap_def)
  have "(\<Union>i \<in> set [0 ..< length (mmaps mp)]. insAt (mmaps mp) i) = cov (insFamily (mmaps mp))"
    using insAt_all [of "mmaps mp"] by (simp add: atLeast0LessThan)
  then have "cover (updateBlameMap m mp c) = cov (mapFamily (mmaps mp) ?F \<union> insFamily (mmaps mp))"
    using fold(2) s2 by (simp add: cov_Un)
  then show ?thesis using cov_all [OF v F] fold(1) by simp
qed

lemma reachable_blameInv: "reachable invert n st \<Longrightarrow> blameInv n (blameMap st)"
proof (induction rule: reachable.induct)
  case (reach_init n)
  have "chain 0 [mkSpan 0 n None]" using reach_init by (simp add: mkSpan_def)
  then show ?case unfolding blameInv_def
    by (auto simp: trackInit_def cover_def mkSpan_def)
next
  case (reach_transform n st tr)
  from reach_transform.IH obtain lo where ch: "chain lo (blameMap st)"
    and cv: "cover (blameMap st) = {0 ..< n}" unfolding blameInv_def by blast
  from reach_transform.hyps(2) have v: "mirror (tmapping tr) = None" "mfrom (tmapping tr) = 0"
    "mto (tmapping tr) = length (mmaps (tmapping tr))" "validMaps n (mmaps (tmapping tr))"
    by (simp_all add: validTransform_def)
  have b: "blameMap (applyTransform invert st tr)
             = updateBlameMap (blameMap st) (tmapping tr) (length (commits st))"
    by (simp add: applyTransform_def Let_def)
  have "sortedSpans (blameMap (applyTransform invert st tr))
        \<and> cover (blameMap (applyTransform invert st tr)) = {0 ..< sizeAfter n tr}"
    using updateBlameMap_inv [OF v ch cv] b by (simp add: sizeAfter_def)
  then show ?case unfolding blameInv_def sortedSpans_def using chainS_chain by blast
next
  case (reach_commit n st a msg t)
  then show ?case by (simp add: applyCommit_def)
qed

lemma chain_mem: "chain lo m \<Longrightarrow> x \<in> set m \<Longrightarrow> lo \<le> sfrom x \<and> lo \<le> sto x"
proof (induction m arbitrary: lo)
  case Nil
  then show ?case by simp
next
  case (Cons s m)
  from Cons.prems(1) have ch: "lo \<le> sfrom s" "sfrom s \<le> sto s" "chain (sto s) m" by auto
  from Cons.prems(2) consider "x = s" | "x \<in> set m" by auto
  then show ?case
  proof cases
    case 1
    then show ?thesis using ch by simp
  next
    case 2
    with Cons.IH [OF ch(3)] ch show ?thesis by force
  qed
qed

lemma chain_sorted: "chain lo m \<Longrightarrow> sorted (map sfrom m)"
proof (induction m arbitrary: lo)
  case Nil
  then show ?case by simp
next
  case (Cons s m)
  from Cons.prems have ch: "lo \<le> sfrom s" "sfrom s \<le> sto s" "chain (sto s) m" by auto
  have "\<forall>x \<in> set m. sfrom s \<le> sfrom x" using chain_mem [OF ch(3)] ch(2) by force
  then show ?case using Cons.IH [OF ch(3)] by simp
qed

lemma chain_disjoint: "chain lo m \<Longrightarrow> i < j \<Longrightarrow> j < length m \<Longrightarrow> sto (m ! i) \<le> sfrom (m ! j)"
proof (induction m arbitrary: lo i j)
  case Nil
  then show ?case by simp
next
  case (Cons s m)
  from Cons.prems(1) have ch: "lo \<le> sfrom s" "sfrom s \<le> sto s" "chain (sto s) m" by auto
  obtain j' where j: "j = Suc j'" using Cons.prems(2) by (cases j) auto
  then have j': "j' < length m" using Cons.prems(3) by simp
  show ?case
  proof (cases i)
    case 0
    have "m ! j' \<in> set m" using j' by simp
    then show ?thesis using chain_mem [OF ch(3)] 0 j by simp
  next
    case (Suc i')
    then have "i' < j'" using Cons.prems(2) j by simp
    then show ?thesis using Cons.IH [OF ch(3) _ j'] Suc j by simp
  qed
qed

lemmas blame_eval = applyTransform_def trackInit_def updateBlameMap_def insertRangesOf_def
  newMapping_def Mapping_slice_def Mapping_map_def StepMap_map_def forEach_def
  insertIntoBlameMap_def mkSpan_def Let_def

text \<open>
  C1 as the specification states it fails. A document of size 6 gets two characters
  inserted at position 2, then the same two characters deleted. The two spans without
  attribution that the insertion had separated now touch, and the blame map keeps them
  as two adjacent spans with the same attribution.
\<close>

theorem blameMap_coalescing_counterexample:
  "reachable (\<lambda>(s::nat) (d::unit). s) 6
     (applyTransform (\<lambda>s d. s)
        (applyTransform (\<lambda>s d. s) (trackInit 6)
           \<lparr>tdoc = (), tsteps = [1], tdocs = [()], tmapping = newMapping [[(2, 0, 2)]]\<rparr>)
        \<lparr>tdoc = (), tsteps = [2], tdocs = [()], tmapping = newMapping [[(2, 2, 0)]]\<rparr>)
   \<and> blameMap
       (applyTransform (\<lambda>(s::nat) (d::unit). s)
        (applyTransform (\<lambda>s d. s) (trackInit 6)
           \<lparr>tdoc = (), tsteps = [1], tdocs = [()], tmapping = newMapping [[(2, 0, 2)]]\<rparr>)
        \<lparr>tdoc = (), tsteps = [2], tdocs = [()], tmapping = newMapping [[(2, 2, 0)]]\<rparr>)
       = [mkSpan 0 2 None, mkSpan 2 6 None]
   \<and> \<not> coalesced (blameMap
       (applyTransform (\<lambda>(s::nat) (d::unit). s)
        (applyTransform (\<lambda>s d. s) (trackInit 6)
           \<lparr>tdoc = (), tsteps = [1], tdocs = [()], tmapping = newMapping [[(2, 0, 2)]]\<rparr>)
        \<lparr>tdoc = (), tsteps = [2], tdocs = [()], tmapping = newMapping [[(2, 2, 0)]]\<rparr>))"
proof -
  let ?inv = "\<lambda>(s::nat) (d::unit). s"
  let ?tr1 = "\<lparr>tdoc = (), tsteps = [1::nat], tdocs = [()], tmapping = newMapping [[(2, 0, 2)]]\<rparr>"
  let ?tr2 = "\<lparr>tdoc = (), tsteps = [2::nat], tdocs = [()], tmapping = newMapping [[(2, 2, 0)]]\<rparr>"
  let ?st1 = "applyTransform ?inv (trackInit 6) ?tr1"
  let ?st2 = "applyTransform ?inv ?st1 ?tr2"
  have i: "reachable ?inv 6 (trackInit 6)" by (rule reach_init) simp
  have v1: "validTransform 6 ?tr1" by (simp add: validTransform_def newMapping_def sizeChange_def)
  have s1: "sizeAfter 6 ?tr1 = 8" by (simp add: sizeAfter_def newMapping_def sizeChange_def)
  have r1: "reachable ?inv 8 ?st1" using reach_transform [OF i v1] s1 by simp
  have v2: "validTransform 8 ?tr2" by (simp add: validTransform_def newMapping_def sizeChange_def)
  have s2: "sizeAfter 8 ?tr2 = 6" by (simp add: sizeAfter_def newMapping_def sizeChange_def)
  have r2: "reachable ?inv 6 ?st2" using reach_transform [OF r1 v2] s2 by simp
  have b1: "blameMap ?st1 = [mkSpan 0 2 None, mkSpan 2 4 (Some 0), mkSpan 4 8 None]"
    by (simp add: blame_eval)
  have c1: "commits ?st1 = []" by (simp add: applyTransform_def trackInit_def)
  have b2: "blameMap ?st2 = updateBlameMap (blameMap ?st1) (newMapping [[(2, 2, 0)]]) 0"
    using c1 by (simp add: applyTransform_def)
  have b: "blameMap ?st2 = [mkSpan 0 2 None, mkSpan 2 6 None]"
    unfolding b2 b1 by (simp add: blame_eval)
  have "\<not> coalesced [mkSpan 0 2 None, mkSpan 2 6 None]"
    unfolding coalesced_def by (rule notI, drule spec [of _ 0]) (simp add: mkSpan_def)
  then show ?thesis using r2 b by simp
qed

text \<open>
  C1, amended. For every state reached from the initial state by \<open>applyTransform\<close>
  (with transforms whose step maps fit the document they apply to) and \<open>applyCommit\<close>,
  on a document that has size \<open>n\<close> by then: the spans of the blame map are sorted by
  \<open>from\<close>, every span ends at or before the start of every later span, and the union
  of the spans is exactly \<open>[0, n)\<close>.
\<close>

theorem blameMap_sorted_disjoint_covering:
  assumes "reachable invert n st"
  shows "sorted (map sfrom (blameMap st))
       \<and> (\<forall>i j. i < j \<and> j < length (blameMap st) \<longrightarrow> sto (blameMap st ! i) \<le> sfrom (blameMap st ! j))
       \<and> (\<Union>s \<in> set (blameMap st). {sfrom s ..< sto s}) = {0 ..< n}"
proof -
  from reachable_blameInv [OF assms] obtain lo where ch: "chain lo (blameMap st)"
    and cv: "cover (blameMap st) = {0 ..< n}" unfolding blameInv_def by blast
  show ?thesis using chain_sorted [OF ch] chain_disjoint [OF ch] cv by (simp add: cover_def)
qed

theorem blameMap_sorted_disjoint_covering_witness:
  "reachable (\<lambda>(s::nat) (d::unit). s) 11
     (applyTransform (\<lambda>s d. s) (trackInit 5)
        \<lparr>tdoc = (), tsteps = [1], tdocs = [()], tmapping = newMapping [[(5, 0, 6)]]\<rparr>)
   \<and> blameMap
       (applyTransform (\<lambda>(s::nat) (d::unit). s) (trackInit 5)
          \<lparr>tdoc = (), tsteps = [1], tdocs = [()], tmapping = newMapping [[(5, 0, 6)]]\<rparr>)
       = [mkSpan 0 5 None, mkSpan 5 11 (Some 0)]
   \<and> (\<Union>s \<in> set [mkSpan 0 5 None, mkSpan 5 11 (Some 0)]. {sfrom s ..< sto s}) = {0 ..< 11}"
proof -
  let ?inv = "\<lambda>(s::nat) (d::unit). s"
  let ?tr = "\<lparr>tdoc = (), tsteps = [1::nat], tdocs = [()], tmapping = newMapping [[(5, 0, 6)]]\<rparr>"
  let ?st = "applyTransform ?inv (trackInit 5) ?tr"
  have i: "reachable ?inv 5 (trackInit 5)" by (rule reach_init) simp
  have v: "validTransform 5 ?tr" by (simp add: validTransform_def newMapping_def sizeChange_def)
  have s: "sizeAfter 5 ?tr = 11" by (simp add: sizeAfter_def newMapping_def sizeChange_def)
  have r: "reachable ?inv 11 ?st" using reach_transform [OF i v] s by simp
  have b: "blameMap ?st = [mkSpan 0 5 None, mkSpan 5 11 (Some 0)]"
    by (simp add: blame_eval)
  show ?thesis using blameMap_sorted_disjoint_covering [OF r] r b by simp
qed

section \<open>Reverting the last commit restores the document\<close>

lemma mapResult_single:
  "StepMap_mapResult [(f, o', n)] p a =
     (if f > p then \<lparr>pos = p, delInfo = {}, recover = None\<rparr>
      else if p \<le> f + o' then
        \<lparr>pos = f + (if (if o' = 0 then a else if p = f then - 1 else if p = f + o' then 1 else a) < 0 then 0 else n),
         delInfo = (if (if a < 0 then p \<noteq> f else p \<noteq> f + o')
                    then insert DEL_SIDE (if p = f then {DEL_AFTER} else if p = f + o' then {DEL_BEFORE} else {DEL_ACROSS})
                    else (if p = f then {DEL_AFTER} else if p = f + o' then {DEL_BEFORE} else {DEL_ACROSS})),
         recover = (if p = (if a < 0 then f else f + o') then None else Some (0, p - f))\<rparr>
      else \<lparr>pos = p + n - o', delInfo = {}, recover = None\<rparr>)"
  by (simp add: StepMap_mapResult_def Let_def)

lemma recover_single: "StepMap_recover [(f, n, o')] (0, x) = Some (f + x)"
  by (simp add: StepMap_recover_def)

lemma pair_no_jump:
  assumes "assocOk a" "0 \<le> o'" "0 \<le> n"
      and "recover (StepMap_mapResult [(f, o', n)] p a) = None"
  shows "DEL_ACROSS \<notin> delInfo (StepMap_mapResult [(f, o', n)] p a)
       \<and> pos (StepMap_mapResult [(f, n, o')] (pos (StepMap_mapResult [(f, o', n)] p a)) a) = p
       \<and> DEL_ACROSS \<notin> delInfo (StepMap_mapResult [(f, n, o')] (pos (StepMap_mapResult [(f, o', n)] p a)) a)"
  using assms unfolding assocOk_def mapResult_single
  by (auto split: if_splits)

lemma pair_jump:
  assumes "recover (StepMap_mapResult [(f, o', n)] p a) = Some v"
  shows "StepMap_recover [(f, n, o')] v = Some p"
  using assms unfolding mapResult_single
  by (auto split: if_splits simp: recover_single)

lemma mm_end:
  "\<not> (i < mto mp \<and> i < length (mmaps mp)) \<Longrightarrow>
   mappingMapFrom mp i p a del = \<lparr>pos = p, delInfo = del, recover = None\<rparr>"
  by (subst mappingMapFrom.simps) auto

lemma mm_jump:
  "i < mto mp \<Longrightarrow> i < length (mmaps mp) \<Longrightarrow>
   recover (StepMap_mapResult (mmaps mp ! i) p a) = Some v \<Longrightarrow>
   getMirror mp i = Some corr \<Longrightarrow> corr > i \<Longrightarrow> corr < mto mp \<Longrightarrow> corr < length (mmaps mp) \<Longrightarrow>
   StepMap_recover (mmaps mp ! corr) v = Some q \<Longrightarrow>
   mappingMapFrom mp i p a del = mappingMapFrom mp (Suc corr) q a del"
  by (subst mappingMapFrom.simps) (simp add: Let_def)

lemma mm_plain:
  "i < mto mp \<Longrightarrow> i < length (mmaps mp) \<Longrightarrow>
   recover (StepMap_mapResult (mmaps mp ! i) p a) = None
     \<or> (\<exists>c. getMirror mp i = Some c \<and> c \<le> i) \<Longrightarrow>
   mappingMapFrom mp i p a del
     = mappingMapFrom mp (Suc i) (pos (StepMap_mapResult (mmaps mp ! i) p a)) a
         (del \<union> delInfo (StepMap_mapResult (mmaps mp ! i) p a))"
  by (subst mappingMapFrom.simps) (auto simp: Let_def split: option.splits)

lemma nestedAt_inner: "nestedAt mp a (a + 2 * Suc k) \<Longrightarrow> nestedAt mp (Suc a) (Suc a + 2 * k)"
  unfolding nestedAt_def
proof (intro conjI allI impI)
  assume h: "a + 2 * Suc k \<le> mto mp \<and> a + 2 * Suc k \<le> length (mmaps mp)
      \<and> (\<forall>x. a \<le> x \<and> x < a + 2 * Suc k \<longrightarrow> getMirror mp x = Some (a + (a + 2 * Suc k) - 1 - x))
      \<and> (\<forall>x. a \<le> x \<and> 2 * x + 1 < a + (a + 2 * Suc k) \<longrightarrow>
            (\<exists>f o' n. 0 \<le> o' \<and> 0 \<le> n \<and> mmaps mp ! x = [(f, o', n)]
                       \<and> mmaps mp ! (a + (a + 2 * Suc k) - 1 - x) = [(f, n, o')]))"
  show "Suc a + 2 * k \<le> mto mp" using h by simp
  show "Suc a + 2 * k \<le> length (mmaps mp)" using h by simp
  have e: "a + (a + 2 * Suc k) - 1 = Suc a + (Suc a + 2 * k) - 1" by simp
  { fix x assume x: "Suc a \<le> x \<and> x < Suc a + 2 * k"
    then have "a \<le> x \<and> x < a + 2 * Suc k" by simp
    then have "getMirror mp x = Some (a + (a + 2 * Suc k) - 1 - x)" using h by blast
    then show "getMirror mp x = Some (Suc a + (Suc a + 2 * k) - 1 - x)" using e by simp }
  { fix x assume x: "Suc a \<le> x \<and> 2 * x + 1 < Suc a + (Suc a + 2 * k)"
    then have "a \<le> x \<and> 2 * x + 1 < a + (a + 2 * Suc k)" by simp
    then have "\<exists>f o' n. 0 \<le> o' \<and> 0 \<le> n \<and> mmaps mp ! x = [(f, o', n)]
                       \<and> mmaps mp ! (a + (a + 2 * Suc k) - 1 - x) = [(f, n, o')]" using h by blast
    then show "\<exists>f o' n. 0 \<le> o' \<and> 0 \<le> n \<and> mmaps mp ! x = [(f, o', n)]
                       \<and> mmaps mp ! (Suc a + (Suc a + 2 * k) - 1 - x) = [(f, n, o')]" using e by simp }
qed

lemma nested_identity:
  "nestedAt mp a (a + 2 * k) \<Longrightarrow> assocOk as \<Longrightarrow> DEL_ACROSS \<notin> del \<Longrightarrow>
   \<exists>del'. mappingMapFrom mp a p as del = mappingMapFrom mp (a + 2 * k) p as del' \<and> DEL_ACROSS \<notin> del'"
proof (induction k arbitrary: a p del)
  case 0
  then show ?case by auto
next
  case (Suc k)
  let ?b = "a + 2 * Suc k"
  from Suc.prems(1) have b: "?b \<le> mto mp" "?b \<le> length (mmaps mp)"
    and ma: "getMirror mp a = Some (?b - 1)"
    and mb: "getMirror mp (?b - 1) = Some a"
    unfolding nestedAt_def by (simp_all)
  have "\<forall>x. a \<le> x \<and> 2 * x + 1 < a + ?b \<longrightarrow>
            (\<exists>f o' n. 0 \<le> o' \<and> 0 \<le> n \<and> mmaps mp ! x = [(f, o', n)]
                       \<and> mmaps mp ! (a + ?b - 1 - x) = [(f, n, o')])"
    using Suc.prems(1) unfolding nestedAt_def by blast
  moreover have "a \<le> a \<and> 2 * a + 1 < a + ?b" by simp
  ultimately have "\<exists>f o' n. 0 \<le> o' \<and> 0 \<le> n \<and> mmaps mp ! a = [(f, o', n)]
                       \<and> mmaps mp ! (a + ?b - 1 - a) = [(f, n, o')]" by blast
  moreover have "a + ?b - 1 - a = ?b - 1" by simp
  ultimately obtain f o' n where r: "0 \<le> o'" "0 \<le> n" "mmaps mp ! a = [(f, o', n)]"
      "mmaps mp ! (?b - 1) = [(f, n, o')]" by auto
  have ia: "a < mto mp" "a < length (mmaps mp)" using b by simp_all
  have ib: "?b - 1 < mto mp" "?b - 1 < length (mmaps mp)" "a < ?b - 1" using b by simp_all
  let ?r1 = "StepMap_mapResult [(f, o', n)] p as"
  show ?case
  proof (cases "recover ?r1")
    case (Some v)
    have q: "StepMap_recover (mmaps mp ! (?b - 1)) v = Some p"
      using pair_jump [OF Some] r by simp
    have "mappingMapFrom mp a p as del = mappingMapFrom mp (Suc (?b - 1)) p as del"
      using mm_jump [OF ia _ ma ib(3) ib(1) ib(2) q] Some r by simp
    then have "mappingMapFrom mp a p as del = mappingMapFrom mp ?b p as del" by simp
    then show ?thesis using Suc.prems(3) by blast
  next
    case None
    have pj: "DEL_ACROSS \<notin> delInfo ?r1"
       "pos (StepMap_mapResult [(f, n, o')] (pos ?r1) as) = p"
       "DEL_ACROSS \<notin> delInfo (StepMap_mapResult [(f, n, o')] (pos ?r1) as)"
      using pair_no_jump [OF Suc.prems(2) r(1) r(2) None] by simp_all
    have s1: "mappingMapFrom mp a p as del = mappingMapFrom mp (Suc a) (pos ?r1) as (del \<union> delInfo ?r1)"
      using mm_plain [OF ia, of p as del] None r by simp
    have d1: "DEL_ACROSS \<notin> del \<union> delInfo ?r1" using Suc.prems(3) pj(1) by simp
    obtain del2 where s2: "mappingMapFrom mp (Suc a) (pos ?r1) as (del \<union> delInfo ?r1)
        = mappingMapFrom mp (Suc a + 2 * k) (pos ?r1) as del2" and d2: "DEL_ACROSS \<notin> del2"
      using Suc.IH [OF nestedAt_inner [OF Suc.prems(1)] Suc.prems(2) d1] by blast
    have e: "Suc a + 2 * k = ?b - 1" by simp
    let ?r2 = "StepMap_mapResult [(f, n, o')] (pos ?r1) as"
    have "\<exists>c. getMirror mp (?b - 1) = Some c \<and> c \<le> ?b - 1" using mb ib(3) by simp
    then have s3: "mappingMapFrom mp (?b - 1) (pos ?r1) as del2
        = mappingMapFrom mp (Suc (?b - 1)) (pos ?r2) as (del2 \<union> delInfo ?r2)"
      using mm_plain [OF ib(1) ib(2), of "pos ?r1" as del2] r by simp
    have "mappingMapFrom mp a p as del = mappingMapFrom mp ?b p as (del2 \<union> delInfo ?r2)"
      using s1 s2 s3 e pj(2) by simp
    moreover have "DEL_ACROSS \<notin> del2 \<union> delInfo ?r2" using d2 pj(3) by simp
    ultimately show ?thesis by blast
  qed
qed

lemma replace_round_trip:
  assumes "replaceApply s d = Some d'"
  shows "replaceApply (replaceInvert s d) d' = Some d"
    and "replaceGetMap (replaceInvert s d) = [(rfrom s, int (length (rslice s)), rto s - rfrom s)]"
    and "rfrom (replaceInvert s d) \<le> rto (replaceInvert s d)"
    and "0 \<le> rto s - rfrom s"
proof -
  from assms have b: "0 \<le> rfrom s" "rfrom s \<le> rto s" "rto s \<le> int (length d)"
    and d': "d' = take (nat (rfrom s)) d @ rslice s @ drop (nat (rto s)) d"
    by (auto simp: replaceApply_def split: if_splits)
  let ?f = "nat (rfrom s)" and ?t = "nat (rto s)"
  have ft: "?f \<le> ?t" "?t \<le> length d" using b by simp_all
  have n1: "nat (rfrom s + int (length (rslice s))) = ?f + length (rslice s)"
    using b by (simp add: nat_add_distrib)
  have n2: "nat (rto s - rfrom s) = ?t - ?f" using b by (simp add: nat_diff_distrib)
  have l: "length d' = ?f + length (rslice s) + (length d - ?t)" using ft by (simp add: d')
  have tk: "take ?f d' = take ?f d" using ft by (simp add: d')
  have dr: "drop (?f + length (rslice s)) d' = drop ?t d" using ft by (simp add: d')
  have mid: "take (?t - ?f) (drop ?f d) @ drop ?t d = drop ?f d"
  proof -
    have "drop (?t - ?f) (drop ?f d) = drop ?t d" using ft by simp
    then show ?thesis by (metis append_take_drop_id)
  qed
  have "take ?f d @ take (?t - ?f) (drop ?f d) @ drop ?t d = d"
    using mid by simp
  then show "replaceApply (replaceInvert s d) d' = Some d"
    using b l tk dr by (simp add: replaceApply_def replaceInvert_def n1 n2)
  have "length (take (?t - ?f) (drop ?f d)) = ?t - ?f" using ft by simp
  then show "replaceGetMap (replaceInvert s d) = [(rfrom s, int (length (rslice s)), rto s - rfrom s)]"
    using b by (simp add: replaceGetMap_def replaceInvert_def n2)
  show "rfrom (replaceInvert s d) \<le> rto (replaceInvert s d)"
    by (simp add: replaceInvert_def)
  show "0 \<le> rto s - rfrom s" using b by simp
qed

lemma getMirrorFrom_append:
  "even (length ps) \<Longrightarrow>
   getMirrorFrom (ps @ [a, b]) x =
     (case getMirrorFrom ps x of
        Some y \<Rightarrow> Some y
      | None \<Rightarrow> if a = x then Some b else if b = x then Some a else None)"
  by (induction ps x rule: getMirrorFrom.induct) simp_all

lemma docAt_0: "docAt (d # ds) dn 0 = d"
  by (simp add: docAt_def)

lemma docAt_Suc: "docAt (d # ds) dn (Suc j) = docAt ds dn j"
  by (simp add: docAt_def)

lemma docsOf_facts:
  "docsOf d0 ss = Some (ds, dn) \<Longrightarrow>
   length ds = length ss \<and> docAt ds dn 0 = d0 \<and> docAt ds dn (length ss) = dn
   \<and> (\<forall>j < length ss. replaceApply (ss ! j) (docAt ds dn j) = Some (docAt ds dn (Suc j)))"
proof (induction ss arbitrary: d0 ds)
  case Nil
  then show ?case by (simp add: docAt_def)
next
  case (Cons s ss)
  from Cons.prems obtain d1 ds' where a: "replaceApply s d0 = Some d1"
    and r: "docsOf d1 ss = Some (ds', dn)" and ds: "ds = d0 # ds'"
    by (auto split: option.splits)
  from Cons.IH [OF r] have ih: "length ds' = length ss" "docAt ds' dn 0 = d1"
    "docAt ds' dn (length ss) = dn"
    "\<forall>j < length ss. replaceApply (ss ! j) (docAt ds' dn j) = Some (docAt ds' dn (Suc j))" by simp_all
  have "\<forall>j < length (s # ss). replaceApply ((s # ss) ! j) (docAt ds dn j) = Some (docAt ds dn (Suc j))"
  proof (intro allI impI)
    fix j assume j: "j < length (s # ss)"
    show "replaceApply ((s # ss) ! j) (docAt ds dn j) = Some (docAt ds dn (Suc j))"
    proof (cases j)
      case 0
      then show ?thesis using a ih(2) by (simp add: ds docAt_0 docAt_Suc)
    next
      case (Suc j')
      then show ?thesis using ih(4) j by (simp add: ds docAt_Suc)
    qed
  qed
  then show ?case using ih by (simp add: ds docAt_0 docAt_Suc)
qed

lemma getMirror_appendMap:
  "even (length (mirrorList mp)) \<Longrightarrow>
   getMirror (Mapping_appendMap mp m i) x =
     (case getMirror mp x of
        Some y \<Rightarrow> Some y
      | None \<Rightarrow> if length (mmaps mp) = x then Some i else if i = x then Some (length (mmaps mp)) else None)"
  by (cases "mirror mp")
     (simp_all add: getMirror_def Mapping_appendMap_def mirrorList_def getMirrorFrom_append)

lemma revertStep_inv:
  assumes len: "length ds = length ss"
      and app: "\<forall>j < length ss. replaceApply (ss ! j) (docAt ds dn j) = Some (docAt ds dn (Suc j))"
      and invs: "invs = map (\<lambda>(step, doc). replaceInvert step doc) (zip ss ds)"
      and inv: "revInv ss invs (docAt ds dn) (Suc i) (remap, tr)"
  shows "revInv ss invs (docAt ds dn) i
           (revertStep replaceMap replaceApply replaceGetMap invs i (remap, tr))"
proof -
  let ?n = "length ss"
  from inv have c: "Suc i \<le> ?n"
    and lm: "length (mmaps remap) = 2 * ?n - Suc i"
    and mt: "mto remap = 2 * ?n - Suc i"
    and fw: "\<forall>j < ?n. mmaps remap ! j = replaceGetMap (ss ! j)"
    and bw: "\<forall>j. Suc i \<le> j \<and> j < ?n \<longrightarrow> mmaps remap ! (2 * ?n - 1 - j) = replaceGetMap (invs ! j)"
    and gm: "\<forall>x. getMirror remap x = (if Suc i \<le> x \<and> x < 2 * ?n - Suc i then Some (2 * ?n - 1 - x) else None)"
    and ev: "even (length (mirrorList remap))"
    and td: "tdoc tr = docAt ds dn (Suc i)"
    unfolding revInv_def by simp_all
  have invj: "\<And>j. j < ?n \<Longrightarrow> invs ! j = replaceInvert (ss ! j) (docAt ds dn j)"
    using len by (simp add: invs docAt_def nth_append)
  have appj: "\<And>j. j < ?n \<Longrightarrow> replaceApply (ss ! j) (docAt ds dn j) = Some (docAt ds dn (Suc j))"
    using app by simp
  have gj: "\<And>j. j < ?n \<Longrightarrow> replaceGetMap (invs ! j)
               = [(rfrom (ss ! j), int (length (rslice (ss ! j))), rto (ss ! j) - rfrom (ss ! j))]"
    using replace_round_trip(2) [OF appj] invj by simp
  let ?sl = "Mapping_slice remap (i + 1)"
  let ?k = "?n - Suc i"
  have b: "Suc i + 2 * ?k = 2 * ?n - Suc i" using c by simp
  have nest: "nestedAt ?sl (Suc i) (Suc i + 2 * ?k)"
    unfolding nestedAt_def
  proof (intro conjI allI impI)
    show "Suc i + 2 * ?k \<le> mto ?sl" using b lm by (simp add: Mapping_slice_def)
    show "Suc i + 2 * ?k \<le> length (mmaps ?sl)" using b lm by (simp add: Mapping_slice_def)
    { fix x assume x: "Suc i \<le> x \<and> x < Suc i + 2 * ?k"
      have "getMirror ?sl x = getMirror remap x" by (simp add: getMirror_def Mapping_slice_def)
      also have "\<dots> = Some (2 * ?n - 1 - x)" using gm x b by simp
      also have "2 * ?n - 1 - x = Suc i + (Suc i + 2 * ?k) - 1 - x" using c by simp
      finally show "getMirror ?sl x = Some (Suc i + (Suc i + 2 * ?k) - 1 - x)" . }
    { fix x assume x: "Suc i \<le> x \<and> 2 * x + 1 < Suc i + (Suc i + 2 * ?k)"
      then have xn: "x < ?n" using c by linarith
      have e: "Suc i + (Suc i + 2 * ?k) - 1 - x = 2 * ?n - 1 - x" using c by simp
      have 1: "mmaps ?sl ! x = [(rfrom (ss ! x), rto (ss ! x) - rfrom (ss ! x), int (length (rslice (ss ! x))))]"
        using fw xn by (simp add: Mapping_slice_def replaceGetMap_def)
      have 2: "mmaps ?sl ! (2 * ?n - 1 - x)
                 = [(rfrom (ss ! x), int (length (rslice (ss ! x))), rto (ss ! x) - rfrom (ss ! x))]"
        using bw x xn gj [OF xn] by (simp add: Mapping_slice_def)
      have 3: "0 \<le> rto (ss ! x) - rfrom (ss ! x)" using replace_round_trip(4) [OF appj [OF xn]] .
      show "\<exists>f o' n. 0 \<le> o' \<and> 0 \<le> n \<and> mmaps ?sl ! x = [(f, o', n)]
                \<and> mmaps ?sl ! (Suc i + (Suc i + 2 * ?k) - 1 - x) = [(f, n, o')]"
        unfolding e using 1 2 3 by simp }
  qed
  have ident: "\<And>p a. assocOk a \<Longrightarrow>
      pos (Mapping_mapResult ?sl p a) = p \<and> DEL_ACROSS \<notin> delInfo (Mapping_mapResult ?sl p a)"
  proof -
    fix p a assume a: "assocOk a"
    obtain del' where e: "mappingMapFrom ?sl (Suc i) p a {} = mappingMapFrom ?sl (Suc i + 2 * ?k) p a del'"
      and d: "DEL_ACROSS \<notin> del'"
      using nested_identity [OF nest a, of "{}" p] by auto
    have "\<not> (Suc i + 2 * ?k < mto ?sl \<and> Suc i + 2 * ?k < length (mmaps ?sl))"
      using b lm by (simp add: Mapping_slice_def)
    then have "mappingMapFrom ?sl (Suc i + 2 * ?k) p a del' = \<lparr>pos = p, delInfo = del', recover = None\<rparr>"
      by (rule mm_end)
    then show "pos (Mapping_mapResult ?sl p a) = p \<and> DEL_ACROSS \<notin> delInfo (Mapping_mapResult ?sl p a)"
      using e d by (simp add: Mapping_mapResult_def Mapping_slice_def)
  qed
  have i_n: "i < ?n" using c by simp
  let ?s = "invs ! i"
  have ord: "rfrom ?s \<le> rto ?s" using replace_round_trip(3) [OF appj [OF i_n]] invj [OF i_n] by simp
  have rm: "replaceMap ?s ?sl = Some ?s"
    using ident [of 1] ident [of "- 1"] ord
    by (simp add: replaceMap_def Let_def assocOk_def max_def)
  have ap: "replaceApply ?s (tdoc tr) = Some (docAt ds dn i)"
    using replace_round_trip(1) [OF appj [OF i_n]] invj [OF i_n] td by simp
  let ?remap' = "Mapping_appendMap remap (replaceGetMap ?s) i"
  obtain tr' where st: "revertStep replaceMap replaceApply replaceGetMap invs i (remap, tr) = (?remap', tr')"
    and td': "tdoc tr' = docAt ds dn i"
    using rm ap by (simp add: revertStep_def maybeStep_def)
  have l1: "length (mmaps ?remap') = 2 * ?n - i" using lm c by (simp add: Mapping_appendMap_def)
  have l2: "mto ?remap' = 2 * ?n - i" using lm c by (simp add: Mapping_appendMap_def)
  have l3: "\<forall>j < ?n. mmaps ?remap' ! j = replaceGetMap (ss ! j)"
  proof (intro allI impI)
    fix j assume j: "j < ?n"
    then have "j < length (mmaps remap)" using lm c by linarith
    then show "mmaps ?remap' ! j = replaceGetMap (ss ! j)"
      using fw j by (simp add: Mapping_appendMap_def nth_append)
  qed
  have l4: "\<forall>j. i \<le> j \<and> j < ?n \<longrightarrow> mmaps ?remap' ! (2 * ?n - 1 - j) = replaceGetMap (invs ! j)"
  proof (intro allI impI)
    fix j assume j: "i \<le> j \<and> j < ?n"
    show "mmaps ?remap' ! (2 * ?n - 1 - j) = replaceGetMap (invs ! j)"
    proof (cases "j = i")
      case True
      have "2 * ?n - 1 - i = length (mmaps remap)" using lm c by linarith
      then show ?thesis using True by (simp add: Mapping_appendMap_def)
    next
      case False
      then have "Suc i \<le> j \<and> j < ?n" using j by simp
      moreover have "2 * ?n - 1 - j < length (mmaps remap)" using lm c j False by linarith
      ultimately show ?thesis using bw by (simp add: Mapping_appendMap_def nth_append)
    qed
  qed
  have l5: "\<forall>x. getMirror ?remap' x = (if i \<le> x \<and> x < 2 * ?n - i then Some (2 * ?n - 1 - x) else None)"
  proof
    fix x
    show "getMirror ?remap' x = (if i \<le> x \<and> x < 2 * ?n - i then Some (2 * ?n - 1 - x) else None)"
      using getMirror_appendMap [OF ev, of "replaceGetMap ?s" i x] gm lm c
      by (auto split: option.splits if_splits)
  qed
  have l6: "even (length (mirrorList ?remap'))"
    using ev by (cases "mirror remap") (simp_all add: mirrorList_def Mapping_appendMap_def)
  show ?thesis
    unfolding st revInv_def using c l1 l2 l3 l4 l5 l6 td' by simp
qed

lemma revertLoop_inv:
  assumes len: "length ds = length ss"
      and app: "\<forall>j < length ss. replaceApply (ss ! j) (docAt ds dn j) = Some (docAt ds dn (Suc j))"
      and invs: "invs = map (\<lambda>(step, doc). replaceInvert step doc) (zip ss ds)"
  shows "revInv ss invs (docAt ds dn) c s \<Longrightarrow>
         revInv ss invs (docAt ds dn) 0 (revertLoop replaceMap replaceApply replaceGetMap invs c s)"
proof (induction c arbitrary: s)
  case 0
  then show ?case by simp
next
  case (Suc i)
  obtain remap tr where s: "s = (remap, tr)" by (cases s)
  have "revInv ss invs (docAt ds dn) i (revertStep replaceMap replaceApply replaceGetMap invs i s)"
    using revertStep_inv [OF len app invs] Suc.prems unfolding s by blast
  then show ?case using Suc.IH by simp
qed

lemma revInv_init:
  "revInv ss invs (docAt ds dn) (length ss)
     (newMapping (map replaceGetMap ss), tr\<lparr>tdoc := docAt ds dn (length ss)\<rparr>)"
proof -
  have "\<forall>j. length ss \<le> j \<and> j < length ss \<longrightarrow>
          map replaceGetMap ss ! (2 * length ss - 1 - j) = replaceGetMap (invs ! j)"
    by auto
  then show ?thesis
    by (simp add: revInv_def newMapping_def getMirror_def mirrorList_def)
qed

lemma applySteps_facts:
  "applySteps tr0 ss = Some tr \<Longrightarrow>
   \<exists>ds. docsOf (tdoc tr0) ss = Some (ds, tdoc tr)
        \<and> tsteps tr = tsteps tr0 @ ss \<and> tdocs tr = tdocs tr0 @ ds
        \<and> mmaps (tmapping tr) = mmaps (tmapping tr0) @ map replaceGetMap ss"
proof (induction ss arbitrary: tr0)
  case Nil
  then show ?case by simp
next
  case (Cons s ss)
  from Cons.prems obtain d1 where a: "replaceApply s (tdoc tr0) = Some d1"
    by (cases "replaceApply s (tdoc tr0)") (auto simp: maybeStep_def)
  let ?tr1 = "fst (maybeStep replaceApply replaceGetMap tr0 s)"
  have t1: "tdoc ?tr1 = d1" "tsteps ?tr1 = tsteps tr0 @ [s]" "tdocs ?tr1 = tdocs tr0 @ [tdoc tr0]"
    "mmaps (tmapping ?tr1) = mmaps (tmapping tr0) @ [replaceGetMap s]"
    using a by (simp_all add: maybeStep_def)
  have r: "applySteps ?tr1 ss = Some tr" using Cons.prems a by (simp add: maybeStep_def)
  from Cons.IH [OF r] obtain ds where ih: "docsOf d1 ss = Some (ds, tdoc tr)"
    "tsteps tr = tsteps ?tr1 @ ss" "tdocs tr = tdocs ?tr1 @ ds"
    "mmaps (tmapping tr) = mmaps (tmapping ?tr1) @ map replaceGetMap ss"
    using t1(1) by auto
  have "docsOf (tdoc tr0) (s # ss) = Some (tdoc tr0 # ds, tdoc tr)" using a ih(1) by simp
  then show ?case using ih t1 by simp
qed

lemma docsOf_append:
  "docsOf d xs = Some (ds1, d1) \<Longrightarrow> docsOf d1 ys = Some (ds2, d2) \<Longrightarrow>
   docsOf d (xs @ ys) = Some (ds1 @ ds2, d2)"
proof (induction xs arbitrary: d ds1)
  case Nil
  then show ?case by simp
next
  case (Cons x xs)
  from Cons.prems(1) obtain dx ds' where a: "replaceApply x d = Some dx"
    and r: "docsOf dx xs = Some (ds', d1)" and ds: "ds1 = d # ds'"
    by (auto split: option.splits)
  show ?case using Cons.IH [OF r Cons.prems(2)] a by (simp add: ds)
qed

lemma session_facts:
  "session d0 sss = Some (trs, dn) \<Longrightarrow>
   \<exists>ds. docsOf d0 (concat sss) = Some (ds, dn)
        \<and> uncommittedSteps (foldl (applyTransform replaceInvert) st trs)
            = uncommittedSteps st @ invertAll (concat sss) ds
        \<and> uncommittedMaps (foldl (applyTransform replaceInvert) st trs)
            = uncommittedMaps st @ map replaceGetMap (concat sss)
        \<and> commits (foldl (applyTransform replaceInvert) st trs) = commits st"
proof (induction sss arbitrary: d0 trs st)
  case Nil
  then show ?case by (simp add: invertAll_def)
next
  case (Cons ss sss)
  from Cons.prems obtain tr trs' where a: "applySteps (newTransform d0) ss = Some tr"
    and r: "session (tdoc tr) sss = Some (trs', dn)" and trs: "trs = tr # trs'"
    by (auto split: option.splits)
  from applySteps_facts [OF a] obtain ds1 where f: "docsOf d0 ss = Some (ds1, tdoc tr)"
    "tsteps tr = ss" "tdocs tr = ds1" "mmaps (tmapping tr) = map replaceGetMap ss"
    by (auto simp: newTransform_def newMapping_def)
  let ?st1 = "applyTransform replaceInvert st tr"
  have s1: "uncommittedSteps ?st1 = uncommittedSteps st @ invertAll ss ds1"
    "uncommittedMaps ?st1 = uncommittedMaps st @ map replaceGetMap ss"
    "commits ?st1 = commits st"
    using f by (simp_all add: applyTransform_def Let_def invertAll_def)
  from Cons.IH [OF r, of ?st1] obtain ds2 where ih: "docsOf (tdoc tr) (concat sss) = Some (ds2, dn)"
    "uncommittedSteps (foldl (applyTransform replaceInvert) ?st1 trs')
       = uncommittedSteps ?st1 @ invertAll (concat sss) ds2"
    "uncommittedMaps (foldl (applyTransform replaceInvert) ?st1 trs')
       = uncommittedMaps ?st1 @ map replaceGetMap (concat sss)"
    "commits (foldl (applyTransform replaceInvert) ?st1 trs') = commits ?st1"
    by auto
  have l1: "length ds1 = length ss" using docsOf_facts [OF f(1)] by simp
  have d: "docsOf d0 (concat (ss # sss)) = Some (ds1 @ ds2, dn)"
    using docsOf_append [OF f(1) ih(1)] by simp
  have z: "invertAll (concat (ss # sss)) (ds1 @ ds2) = invertAll ss ds1 @ invertAll (concat sss) ds2"
    using l1 by (simp add: invertAll_def)
  show ?case using d z ih s1 by (simp add: trs)
qed

lemma indexOfFrom_last:
  "caddr c \<notin> caddr ` set xs \<Longrightarrow> indexOfFrom (xs @ [c]) c i = Some (i + length xs)"
  by (induction xs arbitrary: i) auto

text \<open>
  C2. Documents are flat and edits are replace steps. Take a state without
  uncommitted steps, apply to it the transforms of an editing session that starts at
  document \<open>d0\<close> and ends at document \<open>dn\<close>, with at least one step, and commit; the
  commit object is allocated at an address no earlier commit has. Reverting that
  commit at once returns \<open>true\<close>, and the document of the transaction the command
  built is \<open>d0\<close>.
\<close>

theorem revert_round_trip:
  assumes p1: "uncommittedSteps st = []" and p2: "uncommittedMaps st = []"
      and se: "session d0 sss = Some (trs, dn)"
      and ne: "concat sss \<noteq> []"
      and fr: "a \<notin> caddr ` set (commits st)"
  shows "fst (revertCommit replaceMap replaceApply replaceGetMap
                (last (commits (applyCommit a (foldl (applyTransform replaceInvert) st trs) msg t)))
                (applyCommit a (foldl (applyTransform replaceInvert) st trs) msg t)
                (newTransaction dn t'))
         = True
       \<and> tdoc (snd (revertCommit replaceMap replaceApply replaceGetMap
                (last (commits (applyCommit a (foldl (applyTransform replaceInvert) st trs) msg t)))
                (applyCommit a (foldl (applyTransform replaceInvert) st trs) msg t)
                (newTransaction dn t')))
         = d0"
proof -
  let ?ss = "concat sss"
  let ?st1 = "foldl (applyTransform replaceInvert) st trs"
  from session_facts [OF se, of st] obtain ds where d: "docsOf d0 ?ss = Some (ds, dn)"
    and us: "uncommittedSteps ?st1 = invertAll ?ss ds"
    and um: "uncommittedMaps ?st1 = map replaceGetMap ?ss"
    and cm: "commits ?st1 = commits st"
    using p1 p2 by auto
  from docsOf_facts [OF d] have len: "length ds = length ?ss"
    and d0: "docAt ds dn 0 = d0" and dn: "docAt ds dn (length ?ss) = dn"
    and app: "\<forall>j < length ?ss. replaceApply (?ss ! j) (docAt ds dn j) = Some (docAt ds dn (Suc j))"
    by simp_all
  let ?invs = "invertAll ?ss ds"
  have li: "length ?invs = length ?ss" using len by (simp add: invertAll_def)
  have nz: "?invs \<noteq> []" using li ne by (cases ?invs) auto
  let ?c = "newCommit a msg t ?invs (map replaceGetMap ?ss)"
  let ?st2 = "applyCommit a ?st1 msg t"
  have c2: "commits ?st2 = commits st @ [?c]" using nz us um cm by (simp add: applyCommit_def)
  have u2: "uncommittedSteps ?st2 = []" using nz us by (simp add: applyCommit_def)
  have la: "last (commits ?st2) = ?c" using c2 by simp
  have "caddr ?c \<notin> caddr ` set (commits st)" using fr by (simp add: newCommit_def)
  then have ix: "indexOf (commits ?st2) ?c = Some (length (commits st))"
    using indexOfFrom_last [of ?c "commits st" 0] c2 by (simp add: indexOf_def)
  have rm: "concat (map cmaps (drop (length (commits st)) (commits ?st2))) = map replaceGetMap ?ss"
    using c2 by (simp add: newCommit_def)
  have sc: "steps ?c = ?invs" by (simp add: newCommit_def)
  let ?loop = "revertLoop replaceMap replaceApply replaceGetMap ?invs (length ?invs)
                 (newMapping (map replaceGetMap ?ss), newTransaction dn t')"
  have init: "revInv ?ss ?invs (docAt ds dn) (length ?ss)
                (newMapping (map replaceGetMap ?ss), newTransaction dn t')"
    using revInv_init [of ?ss ?invs ds dn "newTransaction dn t'"] dn
    by (simp add: newTransaction_def)
  have "revInv ?ss ?invs (docAt ds dn) 0 ?loop"
    using revertLoop_inv [OF len app, of ?invs "length ?ss"] init li
    by (simp add: invertAll_def)
  then have fin: "tdoc (snd ?loop) = d0" using d0 by (simp add: revInv_def split: prod.splits)
  have rc: "revertCommit replaceMap replaceApply replaceGetMap ?c ?st2 (newTransaction dn t')
      = (True, if docChanged (snd ?loop)
               then (snd ?loop)\<lparr>trackMeta := Some (''Revert '' @ [CHR 0x27] @ message ?c @ [CHR 0x27])\<rparr>
               else snd ?loop)"
    using ix u2 rm sc by (simp add: revertCommit_def Let_def)
  show ?thesis unfolding la rc using fin by simp
qed

theorem revert_round_trip_witness:
  "session ''abc'' [[ReplaceStep 1 1 ''X''], [ReplaceStep 3 3 ''Y'', ReplaceStep 0 2 '''']]
     = Some ([\<lparr>tdoc = ''aXbc'', tsteps = [ReplaceStep 1 1 ''X''], tdocs = [''abc''],
               tmapping = \<lparr>mmaps = [[(1, 0, 1)]], mirror = None, mfrom = 0, mto = 1\<rparr>\<rparr>,
              \<lparr>tdoc = ''bYc'', tsteps = [ReplaceStep 3 3 ''Y'', ReplaceStep 0 2 ''''],
               tdocs = [''aXbc'', ''aXbYc''],
               tmapping = \<lparr>mmaps = [[(3, 0, 1)], [(0, 2, 0)]], mirror = None, mfrom = 0, mto = 2\<rparr>\<rparr>],
             ''bYc'')
   \<and> tdoc (snd (revertCommit replaceMap replaceApply replaceGetMap
        (last (commits (applyCommit 7
           (foldl (applyTransform replaceInvert) (trackInit 3)
              [\<lparr>tdoc = ''aXbc'', tsteps = [ReplaceStep 1 1 ''X''], tdocs = [''abc''],
                tmapping = \<lparr>mmaps = [[(1, 0, 1)]], mirror = None, mfrom = 0, mto = 1\<rparr>\<rparr>,
               \<lparr>tdoc = ''bYc'', tsteps = [ReplaceStep 3 3 ''Y'', ReplaceStep 0 2 ''''],
                tdocs = [''aXbc'', ''aXbYc''],
                tmapping = \<lparr>mmaps = [[(3, 0, 1)], [(0, 2, 0)]], mirror = None, mfrom = 0, mto = 2\<rparr>\<rparr>])
           ''c0'' 0)))
        (applyCommit 7
           (foldl (applyTransform replaceInvert) (trackInit 3)
              [\<lparr>tdoc = ''aXbc'', tsteps = [ReplaceStep 1 1 ''X''], tdocs = [''abc''],
                tmapping = \<lparr>mmaps = [[(1, 0, 1)]], mirror = None, mfrom = 0, mto = 1\<rparr>\<rparr>,
               \<lparr>tdoc = ''bYc'', tsteps = [ReplaceStep 3 3 ''Y'', ReplaceStep 0 2 ''''],
                tdocs = [''aXbc'', ''aXbYc''],
                tmapping = \<lparr>mmaps = [[(3, 0, 1)], [(0, 2, 0)]], mirror = None, mfrom = 0, mto = 2\<rparr>\<rparr>])
           ''c0'' 0)
        (newTransaction ''bYc'' 1)))
     = ''abc''"
proof -
  let ?trs = "[\<lparr>tdoc = ''aXbc'', tsteps = [ReplaceStep 1 1 ''X''], tdocs = [''abc''],
                tmapping = \<lparr>mmaps = [[(1, 0, 1)]], mirror = None, mfrom = 0, mto = 1\<rparr>\<rparr>,
               \<lparr>tdoc = ''bYc'', tsteps = [ReplaceStep 3 3 ''Y'', ReplaceStep 0 2 ''''],
                tdocs = [''aXbc'', ''aXbYc''],
                tmapping = \<lparr>mmaps = [[(3, 0, 1)], [(0, 2, 0)]], mirror = None, mfrom = 0, mto = 2\<rparr>\<rparr>]"
  have se: "session ''abc'' [[ReplaceStep 1 1 ''X''], [ReplaceStep 3 3 ''Y'', ReplaceStep 0 2 '''']]
      = Some (?trs, ''bYc'')"
    by (simp add: newTransform_def newMapping_def maybeStep_def replaceApply_def replaceGetMap_def)
  have p1: "uncommittedSteps (trackInit 3 :: ReplaceStep TrackState) = []"
    and p2: "uncommittedMaps (trackInit 3 :: ReplaceStep TrackState) = []"
    and fr: "7 \<notin> caddr ` set (commits (trackInit 3 :: ReplaceStep TrackState))"
    by (simp_all add: trackInit_def)
  have ne: "concat [[ReplaceStep 1 1 ''X''], [ReplaceStep 3 3 ''Y'', ReplaceStep 0 2 '''']] \<noteq> []"
    by simp
  show ?thesis
    using revert_round_trip [OF p1 p2 se ne fr, of "''c0''" 0 1] se by simp
qed

section \<open>Spans created by an edit carry the index of the next commit\<close>

lemma attributed_Nil: "attributed c [] q = False"
  by (simp add: attributed_def)

lemma attributed_Cons:
  "attributed c (s # m) q = ((scommit s = Some c \<and> sfrom s \<le> q \<and> q < sto s) \<or> attributed c m q)"
  by (auto simp: attributed_def)

lemma attributed_append: "attributed c (xs @ ys) q = (attributed c xs q \<or> attributed c ys q)"
  by (auto simp: attributed_def)

lemma scanLeft_attributed:
  "scanLeft m f t c = (d, r) \<Longrightarrow> attributed c m q \<Longrightarrow> attributed c d q \<or> attributed c r q"
proof (induction m arbitrary: d r)
  case Nil
  then show ?case by (simp add: attributed_Nil)
next
  case (Cons a m)
  obtain d0 r0 where rec: "scanLeft m f t c = (d0, r0)" by (cases "scanLeft m f t c")
  have IH: "attributed c m q \<Longrightarrow> attributed c d0 q \<or> attributed c r0 q"
    using Cons.IH [OF rec] by simp
  from Cons.prems rec IH show ?case
    by (auto simp: attributed_Cons attributed_Nil mkSpan_def Let_def split: if_splits)
qed

lemma scanRight_attributed:
  "scanRight r f t c = (f', t', r') \<Longrightarrow>
   f' \<le> f \<and> t \<le> t' \<and> (attributed c r q \<longrightarrow> (f' \<le> q \<and> q < t') \<or> attributed c r' q)"
proof (induction r f t c rule: scanRight.induct)
  case (1 f t c)
  then show ?case by (simp add: attributed_Nil)
next
  case (2 nxt rest f t c)
  show ?case
  proof (cases "scommit nxt = Some c")
    case True
    show ?thesis
    proof (cases "sfrom nxt > t")
      case gt: True
      then show ?thesis using "2.prems" True by simp
    next
      case le: False
      have call: "scanRight rest (min f (sfrom nxt)) (max t (sto nxt)) c = (f', t', r')"
        using "2.prems" True le by simp
      have ih: "f' \<le> min f (sfrom nxt) \<and> max t (sto nxt) \<le> t'
                \<and> (attributed c rest q \<longrightarrow> (f' \<le> q \<and> q < t') \<or> attributed c r' q)"
        using "2.IH"(1) [OF True _ call] le by simp
      then show ?thesis by (auto simp: attributed_Cons)
    qed
  next
    case False
    show ?thesis
    proof (cases "sfrom nxt \<ge> t")
      case True
      then show ?thesis using "2.prems" False by simp
    next
      case lt: False
      show ?thesis
      proof (cases "sto nxt > t")
        case True
        then have "f' = f" "t' = t" "r' = mkSpan t (sto nxt) (scommit nxt) # rest"
          using "2.prems" False lt by auto
        then show ?thesis using False by (simp add: attributed_Cons mkSpan_def)
      next
        case le: False
        have call: "scanRight rest f t c = (f', t', r')" using "2.prems" False lt le by simp
        have ih: "f' \<le> f \<and> t \<le> t' \<and> (attributed c rest q \<longrightarrow> (f' \<le> q \<and> q < t') \<or> attributed c r' q)"
          using "2.IH"(2) [OF False _ _ call] lt le by simp
        then show ?thesis using False by (simp add: attributed_Cons)
      qed
    qed
  qed
qed

lemma insert_attributed:
  "attributed c m q \<or> (f \<le> q \<and> q < t) \<Longrightarrow> attributed c (insertIntoBlameMap m f t c) q"
proof (cases "f \<ge> t")
  case True
  assume "attributed c m q \<or> (f \<le> q \<and> q < t)"
  with True show ?thesis by (auto simp: insertIntoBlameMap_def)
next
  case False
  assume a: "attributed c m q \<or> (f \<le> q \<and> q < t)"
  obtain d r where l: "scanLeft m f t c = (d, r)" by (cases "scanLeft m f t c")
  obtain f' t' r' where r: "scanRight r f t c = (f', t', r')" by (cases "scanRight r f t c")
  have eq: "insertIntoBlameMap m f t c = d @ mkSpan f' t' (Some c) # r'"
    using False l r by (simp add: insertIntoBlameMap_def)
  have sr: "f' \<le> f" "t \<le> t'" "attributed c r q \<Longrightarrow> (f' \<le> q \<and> q < t') \<or> attributed c r' q"
    using scanRight_attributed [OF r, of q] by simp_all
  have new: "f' \<le> q \<and> q < t' \<Longrightarrow> attributed c (d @ mkSpan f' t' (Some c) # r') q"
    by (simp add: attributed_append attributed_Cons mkSpan_def)
  from a show ?thesis
  proof
    assume "attributed c m q"
    then have "attributed c d q \<or> attributed c r q" using scanLeft_attributed [OF l] by simp
    then show ?thesis unfolding eq using sr(3) new
      by (auto simp: attributed_append attributed_Cons)
  next
    assume "f \<le> q \<and> q < t"
    then have "f' \<le> q \<and> q < t'" using sr by simp
    then show ?thesis unfolding eq using new by simp
  qed
qed

lemma forEach_fold_attributed:
  "attributed c res q \<or> (\<exists>(s, e, ns, ne) \<in> set xs. g ns 1 \<le> q \<and> q < g ne (- 1)) \<Longrightarrow>
   attributed c (foldl (\<lambda>res (s, e, start, end). insertIntoBlameMap res (g start 1) (g end (- 1)) c) res xs) q"
proof (induction xs arbitrary: res)
  case Nil
  then show ?case by simp
next
  case (Cons x xs)
  obtain s e ns ne where x: "x = (s, e, ns, ne)" by (cases x)
  let ?res = "insertIntoBlameMap res (g ns 1) (g ne (- 1)) c"
  from Cons.prems consider "attributed c res q \<or> (g ns 1 \<le> q \<and> q < g ne (- 1))"
    | "\<exists>(s, e, ns, ne) \<in> set xs. g ns 1 \<le> q \<and> q < g ne (- 1)"
    by (auto simp: x)
  then have "attributed c ?res q \<or> (\<exists>(s, e, ns, ne) \<in> set xs. g ns 1 \<le> q \<and> q < g ne (- 1))"
  proof cases
    case 1
    then show ?thesis using insert_attributed by blast
  next
    case 2
    then show ?thesis by blast
  qed
  from Cons.IH [OF this] show ?case by (simp add: x)
qed

lemma insertRangesOf_attributed:
  "attributed c res q \<or> insertedAt mp i q \<Longrightarrow> attributed c (insertRangesOf mp c i res) q"
  using forEach_fold_attributed [of c res q "forEach (mmaps mp ! i)" "Mapping_map (Mapping_slice mp (i + 1))"]
  unfolding insertedAt_def by (simp add: insertRangesOf_def Let_def)

lemma insertRanges_fold_attributed:
  "attributed c res q \<or> (\<exists>i \<in> set js. insertedAt mp i q) \<Longrightarrow>
   attributed c (foldl (\<lambda>res i. insertRangesOf mp c i res) res js) q"
proof (induction js arbitrary: res)
  case Nil
  then show ?case by simp
next
  case (Cons j js)
  from Cons.prems consider "attributed c res q \<or> insertedAt mp j q"
    | "\<exists>i \<in> set js. insertedAt mp i q"
    by auto
  then have "attributed c (insertRangesOf mp c j res) q \<or> (\<exists>i \<in> set js. insertedAt mp i q)"
  proof cases
    case 1
    then show ?thesis using insertRangesOf_attributed by blast
  next
    case 2
    then show ?thesis by blast
  qed
  from Cons.IH [OF this] show ?case by simp
qed

lemma updateBlameMap_attributed:
  assumes "i < length (mmaps mp)" and "insertedAt mp i q"
  shows "attributed c (updateBlameMap m mp c) q"
proof -
  have "i \<in> set [0 ..< length (mmaps mp)]" using assms(1) by simp
  then have "\<exists>i \<in> set [0 ..< length (mmaps mp)]. insertedAt mp i q"
    using assms(2) by blast
  then show ?thesis
    unfolding updateBlameMap_def using insertRanges_fold_attributed by blast
qed

lemma scanLeft_attributed_rev:
  "scanLeft m f t c = (d, r) \<Longrightarrow> attributed c d q \<or> attributed c r q \<Longrightarrow> attributed c m q"
proof (induction m arbitrary: d r)
  case Nil
  then show ?case by (simp add: attributed_Nil)
next
  case (Cons a m)
  obtain d0 r0 where rec: "scanLeft m f t c = (d0, r0)" by (cases "scanLeft m f t c")
  have IH: "attributed c d0 q \<or> attributed c r0 q \<Longrightarrow> attributed c m q"
    using Cons.IH [OF rec] by simp
  from Cons.prems rec IH show ?case
    by (auto simp: attributed_Cons attributed_Nil mkSpan_def Let_def split: if_splits)
qed

lemma scanRight_exact:
  "chainS lo r \<Longrightarrow> f < t \<Longrightarrow>
   \<forall>x \<in> set r. f \<le> sto x \<and> (scommit x \<noteq> Some c \<longrightarrow> f \<le> sfrom x) \<Longrightarrow>
   scanRight r f t c = (f', t', r') \<Longrightarrow>
   (f' \<le> q \<and> q < t') \<or> attributed c r' q \<Longrightarrow>
   (f \<le> q \<and> q < t) \<or> attributed c r q"
proof (induction r f t c arbitrary: lo rule: scanRight.induct)
  case (1 f t c)
  then show ?case by (simp add: attributed_Nil)
next
  case (2 nxt rest f t c)
  from "2.prems"(1) have ch: "lo \<le> sfrom nxt" "sfrom nxt < sto nxt" "chainS (sto nxt) rest" by auto
  from "2.prems"(3) have nx: "f \<le> sto nxt" "scommit nxt \<noteq> Some c \<longrightarrow> f \<le> sfrom nxt"
    and rs: "\<forall>x \<in> set rest. f \<le> sto x \<and> (scommit x \<noteq> Some c \<longrightarrow> f \<le> sfrom x)" by simp_all
  show ?case
  proof (cases "scommit nxt = Some c")
    case True
    show ?thesis
    proof (cases "sfrom nxt > t")
      case gt: True
      then have e: "f' = f" "t' = t" "r' = nxt # rest" using "2.prems"(4) True by simp_all
      then show ?thesis using "2.prems"(5) by simp
    next
      case le: False
      let ?f = "min f (sfrom nxt)" and ?t = "max t (sto nxt)"
      have call: "scanRight rest ?f ?t c = (f', t', r')" using "2.prems"(4) True le by simp
      have pre: "\<forall>x \<in> set rest. ?f \<le> sto x \<and> (scommit x \<noteq> Some c \<longrightarrow> ?f \<le> sfrom x)"
        using rs by (simp add: min_le_iff_disj)
      have lt: "?f < ?t" using "2.prems"(2) by (simp add: min_less_iff_disj less_max_iff_disj)
      have ih: "(?f \<le> q \<and> q < ?t) \<or> attributed c rest q"
        using "2.IH"(1) [OF True _ ch(3) lt pre call "2.prems"(5)] le by simp
      have un: "{?f ..< ?t} = {f ..< t} \<union> {sfrom nxt ..< sto nxt}"
        using le nx(1) "2.prems"(2) ch(2) by (intro ivl_join) simp_all
      have "(?f \<le> q \<and> q < ?t) = (q \<in> {?f ..< ?t})" by simp
      also have "\<dots> = ((f \<le> q \<and> q < t) \<or> (sfrom nxt \<le> q \<and> q < sto nxt))"
        unfolding un by simp
      finally show ?thesis using ih True by (auto simp: attributed_Cons)
    qed
  next
    case False
    show ?thesis
    proof (cases "sfrom nxt \<ge> t")
      case ge: True
      then have e: "f' = f" "t' = t" "r' = nxt # rest" using "2.prems"(4) False by simp_all
      then show ?thesis using "2.prems"(5) by simp
    next
      case lt: False
      show ?thesis
      proof (cases "sto nxt > t")
        case True
        then have e: "f' = f" "t' = t" "r' = mkSpan t (sto nxt) (scommit nxt) # rest"
          using "2.prems"(4) False lt by auto
        then show ?thesis using "2.prems"(5) False by (auto simp: attributed_Cons mkSpan_def)
      next
        case le: False
        have call: "scanRight rest f t c = (f', t', r')" using "2.prems"(4) False lt le by simp
        have ih: "(f \<le> q \<and> q < t) \<or> attributed c rest q"
          using "2.IH"(2) [OF False _ _ ch(3) "2.prems"(2) rs call "2.prems"(5)] lt le by simp
        then show ?thesis by (auto simp: attributed_Cons)
      qed
    qed
  qed
qed

lemma insert_exact:
  "chainS lo m \<Longrightarrow> f < t \<Longrightarrow> attributed c (insertIntoBlameMap m f t c) q \<Longrightarrow>
   attributed c m q \<or> (f \<le> q \<and> q < t)"
proof (induction m arbitrary: lo)
  case Nil
  then show ?case by (simp add: insertIntoBlameMap_def attributed_def mkSpan_def)
next
  case (Cons s m)
  from Cons.prems(1) have ch: "lo \<le> sfrom s" "sfrom s < sto s" "chainS (sto s) m" by auto
  have later: "\<And>x. x \<in> set m \<Longrightarrow> sto s \<le> sfrom x \<and> sto s < sto x"
    using chainS_mem [OF ch(3)] by simp
  consider (skip) "(scommit s = Some c \<and> sto s < f) \<or> (scommit s \<noteq> Some c \<and> sto s \<le> f)"
    | (stop) "(scommit s = Some c \<and> f \<le> sto s) \<or> (scommit s \<noteq> Some c \<and> f < sto s \<and> f \<le> sfrom s)"
    | (split) "scommit s \<noteq> Some c" "sfrom s < f" "t < sto s"
    | (left) "scommit s \<noteq> Some c" "sfrom s < f" "f < sto s" "sto s \<le> t"
    by linarith
  then show ?case
  proof cases
    case skip
    have eq: "insertIntoBlameMap (s # m) f t c = s # insertIntoBlameMap m f t c"
      using insert_skip [OF Cons.prems(2) skip] .
    from Cons.prems(3) have "(scommit s = Some c \<and> sfrom s \<le> q \<and> q < sto s)
        \<or> attributed c (insertIntoBlameMap m f t c) q"
      unfolding eq by (simp add: attributed_Cons)
    then show ?thesis using Cons.IH [OF ch(3) Cons.prems(2)] by (auto simp: attributed_Cons)
  next
    case stop
    obtain f' t' r' where sr: "scanRight (s # m) f t c = (f', t', r')"
      by (cases "scanRight (s # m) f t c")
    have eq: "insertIntoBlameMap (s # m) f t c = mkSpan f' t' (Some c) # r'"
      using insert_stop [OF Cons.prems(2) stop sr] .
    have pre: "\<forall>x \<in> set (s # m). f \<le> sto x \<and> (scommit x \<noteq> Some c \<longrightarrow> f \<le> sfrom x)"
    proof
      fix x assume "x \<in> set (s # m)"
      then consider "x = s" | "x \<in> set m" by auto
      then show "f \<le> sto x \<and> (scommit x \<noteq> Some c \<longrightarrow> f \<le> sfrom x)"
      proof cases
        case 1
        then show ?thesis using stop by auto
      next
        case 2
        have "f \<le> sto s" using stop by auto
        then show ?thesis using later [OF 2] by simp
      qed
    qed
    from Cons.prems(3) have "(f' \<le> q \<and> q < t') \<or> attributed c r' q"
      unfolding eq by (simp add: attributed_Cons mkSpan_def)
    then show ?thesis using scanRight_exact [OF Cons.prems(1) Cons.prems(2) pre sr] by blast
  next
    case split
    have eq: "insertIntoBlameMap (s # m) f t c
       = mkSpan (sfrom s) f (scommit s) # mkSpan f t (Some c) # mkSpan t (sto s) (scommit s) # m"
      using insert_split [OF Cons.prems(2) split] .
    from Cons.prems(3) show ?thesis
      unfolding eq using split(1) by (auto simp: attributed_Cons mkSpan_def)
  next
    case left
    obtain f' t' r' where sr: "scanRight m f t c = (f', t', r')"
      by (cases "scanRight m f t c")
    have eq: "insertIntoBlameMap (s # m) f t c = mkSpan (sfrom s) f (scommit s) # mkSpan f' t' (Some c) # r'"
      using insert_left [OF Cons.prems(2) left sr] .
    have pre: "\<forall>x \<in> set m. f \<le> sto x \<and> (scommit x \<noteq> Some c \<longrightarrow> f \<le> sfrom x)"
      using later left by force
    from Cons.prems(3) have "(f' \<le> q \<and> q < t') \<or> attributed c r' q"
      unfolding eq using left(1) by (auto simp: attributed_Cons mkSpan_def)
    then have "(f \<le> q \<and> q < t) \<or> attributed c m q"
      using scanRight_exact [OF ch(3) Cons.prems(2) pre sr] by blast
    then show ?thesis by (auto simp: attributed_Cons)
  qed
qed

lemma insertIntoBlameMap_exact:
  "sortedSpans m \<Longrightarrow> attributed c (insertIntoBlameMap m f t c) q \<Longrightarrow>
   attributed c m q \<or> (f \<le> q \<and> q < t)"
proof (cases "f < t")
  case True
  assume "sortedSpans m" "attributed c (insertIntoBlameMap m f t c) q"
  then show ?thesis using insert_exact True unfolding sortedSpans_def by blast
next
  case False
  assume "sortedSpans m" "attributed c (insertIntoBlameMap m f t c) q"
  then show ?thesis using False by (simp add: insertIntoBlameMap_def)
qed

lemma forEach_fold_exact:
  "sortedSpans res \<Longrightarrow>
   attributed c (foldl (\<lambda>res (s, e, start, end). insertIntoBlameMap res (g start 1) (g end (- 1)) c) res xs) q \<Longrightarrow>
   attributed c res q \<or> (\<exists>(s, e, ns, ne) \<in> set xs. g ns 1 \<le> q \<and> q < g ne (- 1))"
proof (induction xs arbitrary: res)
  case Nil
  then show ?case by simp
next
  case (Cons x xs)
  obtain s e ns ne where x: "x = (s, e, ns, ne)" by (cases x)
  let ?res = "insertIntoBlameMap res (g ns 1) (g ne (- 1)) c"
  have so: "sortedSpans ?res" using sortedSpans_insert [OF Cons.prems(1)] by simp
  have "attributed c ?res q \<or> (\<exists>(s, e, ns, ne) \<in> set xs. g ns 1 \<le> q \<and> q < g ne (- 1))"
    using Cons.IH [OF so] Cons.prems(2) by (simp add: x)
  then show ?case using insertIntoBlameMap_exact [OF Cons.prems(1), of c "g ns 1" "g ne (- 1)" q]
    by (auto simp: x)
qed

lemma insertRangesOf_exact:
  assumes "mirror mp = None" and "sortedSpans res"
      and "attributed c (insertRangesOf mp c i res) q"
  shows "attributed c res q \<or> insertedAt mp i q"
  using forEach_fold_exact [OF assms(2), of c "Mapping_map (Mapping_slice mp (i + 1))" "forEach (mmaps mp ! i)" q]
        assms(3)
  unfolding insertedAt_def by (simp add: insertRangesOf_def Let_def)

lemma insertRanges_fold_exact:
  assumes "mirror mp = None"
  shows "sortedSpans res \<Longrightarrow>
     attributed c (foldl (\<lambda>res i. insertRangesOf mp c i res) res js) q \<Longrightarrow>
     attributed c res q \<or> (\<exists>i \<in> set js. insertedAt mp i q)"
proof (induction js arbitrary: res)
  case Nil
  then show ?case by simp
next
  case (Cons j js)
  have so: "sortedSpans (insertRangesOf mp c j res)"
    using insertRangesOf_inv [OF assms Cons.prems(1)] by simp
  have "attributed c (insertRangesOf mp c j res) q \<or> (\<exists>i \<in> set js. insertedAt mp i q)"
    using Cons.IH [OF so] Cons.prems(2) by simp
  then show ?case using insertRangesOf_exact [OF assms Cons.prems(1), of c j q] by auto
qed

lemma survivors_attributed:
  "attributed c (survivors mp m) q \<Longrightarrow>
   \<exists>s \<in> set m. scommit s = Some c \<and> Mapping_map mp (sfrom s) 1 \<le> q \<and> q < Mapping_map mp (sto s) (- 1)"
  by (induction m) (auto simp: attributed_def Let_def mkSpan_def split: if_splits)

lemma updateBlameMap_exact:
  assumes m0: "mirror mp = None" and m1: "mfrom mp = 0" and m2: "mto mp = length (mmaps mp)"
      and v: "validMaps n (mmaps mp)" and ch: "chain lo m"
      and a: "attributed c (updateBlameMap m mp c) q"
  shows "(\<exists>s \<in> set m. scommit s = Some c \<and> Mapping_map mp (sfrom s) 1 \<le> q \<and> q < Mapping_map mp (sto s) (- 1))
       \<or> (\<exists>i < length (mmaps mp). insertedAt mp i q)"
proof -
  have M: "\<And>p a. Mapping_map mp p a = mapAll (mmaps mp) p a"
    using Mapping_map_plain [OF m0 m1 m2] .
  have mono: "\<And>p q a. p \<le> q \<Longrightarrow> Mapping_map mp p a \<le> Mapping_map mp q a"
    using mapAll_mono [OF v] M by simp
  have assoc: "\<And>p. Mapping_map mp p (- 1) \<le> Mapping_map mp p 1"
    using mapAll_assoc [OF v] M by simp
  have s1: "sortedSpans (survivors mp m)"
    using survivors_chainS [OF mono assoc ch] unfolding sortedSpans_def by blast
  have "attributed c (survivors mp m) q \<or> (\<exists>i \<in> set [0 ..< length (mmaps mp)]. insertedAt mp i q)"
    using insertRanges_fold_exact [OF m0 s1, of c "[0 ..< length (mmaps mp)]" q] a
    by (simp add: updateBlameMap_def)
  then show ?thesis using survivors_attributed [of c mp m q] by auto
qed

text \<open>
  C4. In every reachable state, with \<open>c = commits.length\<close>:
  \<^item> each span's attribution id is the index of an existing commit, or it is \<open>c\<close> and
    there are uncommitted steps;
  \<^item> \<open>applyTransform\<close> updates the blame map with the id \<open>c\<close> and leaves the commit list
    alone;
  \<^item> when the buffer is not empty, \<open>applyCommit\<close> puts the new commit at index \<open>c\<close>
    without touching the blame map;
  \<^item> every position that a transform inserts lies, in the blame map after the
    transform, in a span that carries \<open>c\<close>;
  \<^item> for a transform that fits the document, a position lies in a span that carries
    \<open>c\<close> after the transform only if the transform inserted it or it is what is left
    of a span that carried \<open>c\<close> before;
  \<^item> a transform brings no attribution into the blame map other than \<open>c\<close>.
  So the spans created since the previous commit carry exactly the index that
  the commit made from them gets.
\<close>

theorem commit_index_is_prospective_id:
  assumes "reachable invert n st"
  shows "(\<forall>s \<in> set (blameMap st). \<forall>k. scommit s = Some k \<longrightarrow>
            k < length (commits st) \<or> (k = length (commits st) \<and> uncommittedSteps st \<noteq> []))
       \<and> (\<forall>tr. blameMap (applyTransform invert st tr)
                  = updateBlameMap (blameMap st) (tmapping tr) (length (commits st))
                \<and> commits (applyTransform invert st tr) = commits st)
       \<and> (uncommittedSteps st \<noteq> [] \<longrightarrow>
            (\<forall>a msg t. commits (applyCommit a st msg t)
                          = commits st @ [newCommit a msg t (uncommittedSteps st) (uncommittedMaps st)]
                      \<and> commits (applyCommit a st msg t) ! length (commits st)
                          = newCommit a msg t (uncommittedSteps st) (uncommittedMaps st)
                      \<and> blameMap (applyCommit a st msg t) = blameMap st))
       \<and> (\<forall>tr i q. i < length (mmaps (tmapping tr)) \<and> insertedAt (tmapping tr) i q \<longrightarrow>
            (\<exists>span \<in> set (blameMap (applyTransform invert st tr)).
               scommit span = Some (length (commits st)) \<and> sfrom span \<le> q \<and> q < sto span))
       \<and> (\<forall>tr q. validTransform n tr
                  \<and> attributed (length (commits st)) (blameMap (applyTransform invert st tr)) q \<longrightarrow>
            (\<exists>s \<in> set (blameMap st). scommit s = Some (length (commits st))
                \<and> Mapping_map (tmapping tr) (sfrom s) 1 \<le> q
                \<and> q < Mapping_map (tmapping tr) (sto s) (- 1))
            \<or> (\<exists>i < length (mmaps (tmapping tr)). insertedAt (tmapping tr) i q))
       \<and> (\<forall>tr. \<forall>span \<in> set (blameMap (applyTransform invert st tr)).
            scommit span = Some (length (commits st)) \<or> scommit span \<in> scommit ` set (blameMap st))"
proof -
  have b: "\<And>tr. blameMap (applyTransform invert st tr)
                  = updateBlameMap (blameMap st) (tmapping tr) (length (commits st))"
    by (simp add: applyTransform_def Let_def)
  have 1: "\<forall>s \<in> set (blameMap st). \<forall>k. scommit s = Some k \<longrightarrow>
            k < length (commits st) \<or> (k = length (commits st) \<and> uncommittedSteps st \<noteq> [])"
    using reachable_idsOk [OF assms] by (simp add: idsOk_def)
  have 2: "\<forall>tr. blameMap (applyTransform invert st tr)
                  = updateBlameMap (blameMap st) (tmapping tr) (length (commits st))
                \<and> commits (applyTransform invert st tr) = commits st"
    by (simp add: applyTransform_def Let_def)
  have 3: "uncommittedSteps st \<noteq> [] \<longrightarrow>
            (\<forall>a msg t. commits (applyCommit a st msg t)
                          = commits st @ [newCommit a msg t (uncommittedSteps st) (uncommittedMaps st)]
                      \<and> commits (applyCommit a st msg t) ! length (commits st)
                          = newCommit a msg t (uncommittedSteps st) (uncommittedMaps st)
                      \<and> blameMap (applyCommit a st msg t) = blameMap st)"
    by (simp add: applyCommit_def)
  have 4: "\<forall>tr i q. i < length (mmaps (tmapping tr)) \<and> insertedAt (tmapping tr) i q \<longrightarrow>
            (\<exists>span \<in> set (blameMap (applyTransform invert st tr)).
               scommit span = Some (length (commits st)) \<and> sfrom span \<le> q \<and> q < sto span)"
  proof (intro allI impI)
    fix tr :: "('a, 'b) Transform" and i q
    assume h: "i < length (mmaps (tmapping tr)) \<and> insertedAt (tmapping tr) i q"
    have "attributed (length (commits st)) (updateBlameMap (blameMap st) (tmapping tr) (length (commits st))) q"
      using updateBlameMap_attributed h by blast
    then show "\<exists>span \<in> set (blameMap (applyTransform invert st tr)).
               scommit span = Some (length (commits st)) \<and> sfrom span \<le> q \<and> q < sto span"
      unfolding b attributed_def .
  qed
  obtain lo where ch: "chain lo (blameMap st)"
    using reachable_blameInv [OF assms] unfolding blameInv_def by blast
  have 5: "\<forall>tr q. validTransform n tr
                  \<and> attributed (length (commits st)) (blameMap (applyTransform invert st tr)) q \<longrightarrow>
            (\<exists>s \<in> set (blameMap st). scommit s = Some (length (commits st))
                \<and> Mapping_map (tmapping tr) (sfrom s) 1 \<le> q
                \<and> q < Mapping_map (tmapping tr) (sto s) (- 1))
            \<or> (\<exists>i < length (mmaps (tmapping tr)). insertedAt (tmapping tr) i q)"
  proof (intro allI impI)
    fix tr :: "('a, 'b) Transform" and q
    assume h: "validTransform n tr
                  \<and> attributed (length (commits st)) (blameMap (applyTransform invert st tr)) q"
    then have v: "mirror (tmapping tr) = None" "mfrom (tmapping tr) = 0"
      "mto (tmapping tr) = length (mmaps (tmapping tr))" "validMaps n (mmaps (tmapping tr))"
      by (simp_all add: validTransform_def)
    have a: "attributed (length (commits st))
               (updateBlameMap (blameMap st) (tmapping tr) (length (commits st))) q"
      using h b by simp
    show "(\<exists>s \<in> set (blameMap st). scommit s = Some (length (commits st))
                \<and> Mapping_map (tmapping tr) (sfrom s) 1 \<le> q
                \<and> q < Mapping_map (tmapping tr) (sto s) (- 1))
            \<or> (\<exists>i < length (mmaps (tmapping tr)). insertedAt (tmapping tr) i q)"
      using updateBlameMap_exact [OF v ch a] .
  qed
  have 6: "\<forall>tr. \<forall>span \<in> set (blameMap (applyTransform invert st tr)).
            scommit span = Some (length (commits st)) \<or> scommit span \<in> scommit ` set (blameMap st)"
    unfolding b using updateBlameMap_commits by blast
  show ?thesis using 1 2 3 4 5 6 by blast
qed

theorem commit_index_is_prospective_id_witness:
  "reachable (\<lambda>(s::nat) (d::unit). s) 11
     (applyTransform (\<lambda>s d. s) (trackInit 5)
        \<lparr>tdoc = (), tsteps = [1::nat], tdocs = [()], tmapping = newMapping [[(5, 0, 6)]]\<rparr>)
   \<and> blameMap (applyTransform (\<lambda>s d. s) (trackInit 5)
        \<lparr>tdoc = (), tsteps = [1::nat], tdocs = [()], tmapping = newMapping [[(5, 0, 6)]]\<rparr>)
       = [mkSpan 0 5 None, mkSpan 5 11 (Some 0)]
   \<and> insertedAt (newMapping [[(5, 0, 6)]]) 0 7
   \<and> attributed 0
        (blameMap (applyTransform (\<lambda>(s::nat) (d::unit). s) (trackInit 5)
           \<lparr>tdoc = (), tsteps = [1::nat], tdocs = [()], tmapping = newMapping [[(5, 0, 6)]]\<rparr>)) 7
   \<and> commits (applyCommit 3 (applyTransform (\<lambda>s d. s) (trackInit 5)
        \<lparr>tdoc = (), tsteps = [1::nat], tdocs = [()], tmapping = newMapping [[(5, 0, 6)]]\<rparr>)
        ''add world'' 0) ! 0
       = newCommit 3 ''add world'' 0 [1] [[(5, 0, 6)]]"
proof -
  let ?inv = "\<lambda>(s::nat) (d::unit). s"
  let ?tr = "\<lparr>tdoc = (), tsteps = [1::nat], tdocs = [()], tmapping = newMapping [[(5, 0, 6)]]\<rparr>"
  let ?st = "applyTransform ?inv (trackInit 5) ?tr"
  have v: "validTransform 5 ?tr"
    by (simp add: validTransform_def newMapping_def sizeChange_def)
  have i: "reachable ?inv 5 (trackInit 5)"
    by (rule reach_init) simp
  have "reachable ?inv (sizeAfter 5 ?tr) ?st"
    by (rule reach_transform [OF i v])
  then have r: "reachable ?inv 11 ?st"
    by (simp add: sizeAfter_def newMapping_def sizeChange_def)
  have b: "blameMap ?st = [mkSpan 0 5 None, mkSpan 5 11 (Some 0)]"
    by (simp add: applyTransform_def trackInit_def updateBlameMap_def insertRangesOf_def
          newMapping_def Mapping_slice_def Mapping_map_def StepMap_map_def forEach_def
          insertIntoBlameMap_def mkSpan_def Let_def)
  have ins: "insertedAt (newMapping [[(5, 0, 6)]]) 0 7"
    by (simp add: insertedAt_def newMapping_def forEach_def Mapping_slice_def Mapping_map_def)
  have l: "0 < length (mmaps (tmapping ?tr)) \<and> insertedAt (tmapping ?tr) 0 7"
    using ins by (simp add: newMapping_def)
  have c0: "length (commits (trackInit 5 :: nat TrackState)) = 0"
    by (simp add: trackInit_def)
  have "\<exists>span \<in> set (blameMap ?st). scommit span = Some 0 \<and> sfrom span \<le> 7 \<and> 7 < sto span"
    using commit_index_is_prospective_id [OF i] l c0 by (metis (no_types, lifting))
  then have at: "attributed 0 (blameMap ?st) 7" by (simp add: attributed_def)
  have u: "uncommittedSteps ?st \<noteq> []"
    by (simp add: applyTransform_def)
  have c: "commits ?st = []"
    by (simp add: applyTransform_def trackInit_def)
  have us: "uncommittedSteps ?st = [1]" "uncommittedMaps ?st = [[(5, 0, 6)]]"
    by (simp_all add: applyTransform_def trackInit_def newMapping_def)
  have cm: "commits (applyCommit 3 ?st ''add world'' 0) ! 0 = newCommit 3 ''add world'' 0 [1] [[(5, 0, 6)]]"
    using commit_index_is_prospective_id [OF r] u c us by simp
  show ?thesis using r b ins at cm by simp
qed

end
